theory Spec2Isabelle
  imports Main
begin

section \<open>Values, objects and the code supplied by the application\<close>

text \<open>
  The development embeds the second revision of \<^verbatim>\<open>src/index.ts\<close> (the one whose scopes
  fall back to their parent and whose host resolves itself).

  A service key is a constructor value. Three of them are classes of the module itself and
  are compared by identity in \<^verbatim>\<open>ServiceHost.get\<close> and \<^verbatim>\<open>ServiceScope.get\<close>; every other key is a
  class or function of the application.
\<close>

datatype key = KServiceCollection | KServiceContainer | KServiceHost | KUser nat

text \<open>A resolution context: the host, or the scope with the given index.\<close>

datatype ctx = Host | Scope nat

datatype thrown = TypeError string | UserError string

text \<open>
  JavaScript values. Numbers are the integral ones; objects of the application live in the
  heap and are named by their address; a function value is named by its key; the host and
  the scopes are objects too.
\<close>

datatype val =
    VUndefined
  | VNull
  | VBool bool
  | VNum int
  | VStr string
  | VObj nat
  | VFun key
  | VArr "val list"
  | VCtx ctx

text \<open>\<^verbatim>\<open>if (v)\<close>: the conversion to boolean.\<close>

fun truthy :: "val \<Rightarrow> bool" where
  "truthy VUndefined = False"
| "truthy VNull = False"
| "truthy (VBool b) = b"
| "truthy (VNum n) = (n \<noteq> 0)"
| "truthy (VStr s) = (s \<noteq> [])"
| "truthy (VObj r) = True"
| "truthy (VFun f) = True"
| "truthy (VArr xs) = True"
| "truthy (VCtx c) = True"

text \<open>The right operand of \<^verbatim>\<open>in\<close> must be an object; on a primitive the operator throws.\<close>

fun is_object :: "val \<Rightarrow> bool" where
  "is_object (VObj r) = True"
| "is_object (VFun f) = True"
| "is_object (VArr xs) = True"
| "is_object (VCtx c) = True"
| "is_object v = False"

text \<open>
  What a release method of an object does when teardown invokes it: the object has no
  such method, the method completes, or it throws.
\<close>

datatype release = Absent | Completes | Fails thrown

record obj =
  async_release :: release
  sync_release :: release
  props :: "string \<rightharpoonup> val"

text \<open>
  The result of running a piece of the program: a value, a thrown error, or no result
  within the nesting depth the run was given.
\<close>

datatype 'a outcome = Normal 'a | Thrown thrown | NoFuel

text \<open>
  Code of the application (constructor bodies, factory closures), as the tree of what it does
  with the resolution context it runs under: return, throw, create an object, or resolve a
  key on that context and go on with the result. It reaches the container through that
  context only.
\<close>

datatype code =
    Return val
  | Throw thrown
  | New release release "val \<Rightarrow> code"
  | Get key "val \<Rightarrow> code"

text \<open>
  A function value of the application. \<open>ctor\<close> is the body run by \<^verbatim>\<open>new f(...args)\<close> (absent for
  an arrow function), \<open>body\<close> the one run by a plain call \<^verbatim>\<open>f(...args)\<close> (absent for a class),
  the two \<open>proto\<close> fields say which release methods instances inherit, and \<open>metadata\<close> is
  the list the \<^verbatim>\<open>inject\<close> decorator recorded on the prototype, in declaration order.
\<close>

record callable =
  ctor :: "(val list \<Rightarrow> code) option"
  body :: "(val list \<Rightarrow> code) option"
  proto_async :: release
  proto_sync :: release
  metadata :: "(string \<times> key) list"

section \<open>Bindings, scopes and the state of the program\<close>

text \<open>
  A \<^verbatim>\<open>ServiceFactory\<close>. The first three are the closures \<^verbatim>\<open>#createServiceFactory\<close> returns,
  with the variables they capture; the last is any other function of that type.
\<close>

datatype factory =
    FCallable key
  | FArgs key "val list"
  | FValue val
  | FUser code

text \<open>\<^verbatim>\<open>TaggedService\<close>: only the singleton variant has the \<open>store\<close> slot.\<close>

datatype tagged_service =
    Scoped factory
  | Transient factory
  | Singleton factory val

text \<open>
  What the trace records: a factory of the binding at an address invoked with a context,
  a function constructed or called, a release method of a heap object invoked.
\<close>

datatype event =
    FactoryCalled nat ctx
  | Constructed key
  | Called key
  | AsyncReleased nat
  | SyncReleased nat

text \<open>
  \<^verbatim>\<open>ServiceScope\<close>: the map from binding objects (their addresses) to cached instances, and
  the list of its \<^verbatim>\<open>DisposableRegistry\<close>. \<^verbatim>\<open>createScope\<close> is the only place that constructs a
  scope and passes the container, so \<^verbatim>\<open>#base\<close> is the host throughout.
\<close>

record scope =
  cache :: "nat \<rightharpoonup> val"
  registry :: "val list"

text \<open>
  The state: the functions of the application, the host's \<^verbatim>\<open>#services\<close> table (a key maps to
  the address of its binding object), the binding objects, the list of the host's
  \<^verbatim>\<open>DisposableRegistry\<close>, the scopes, the heap of application objects, and the trace.
\<close>

record world =
  funs :: "nat \<Rightarrow> callable"
  services :: "key \<rightharpoonup> nat"
  bindings :: "tagged_service list"
  host_registry :: "val list"
  scopes :: "scope list"
  objects :: "obj list"
  trace :: "event list"

type_synonym 'a run = "world \<Rightarrow> 'a outcome \<times> world"

text \<open>The \<^verbatim>\<open>get\<close> method of a context, as code running inside a resolution sees it.\<close>

type_synonym getf = "ctx \<Rightarrow> key \<Rightarrow> val run"

definition lookup :: "'a list \<Rightarrow> nat \<Rightarrow> 'a option" where
  "lookup xs i = (if i < length xs then Some (xs ! i) else None)"

definition log :: "event \<Rightarrow> world \<Rightarrow> world" where
  "log e w = w\<lparr>trace := trace w @ [e]\<rparr>"

text \<open>Sequencing: a throw (or running out of depth) skips what follows, the state stays.\<close>

definition and_then :: "'a outcome \<times> world \<Rightarrow> ('a \<Rightarrow> 'b run) \<Rightarrow> 'b outcome \<times> world" where
  "and_then m f =
     (case m of (r, w) \<Rightarrow>
        (case r of Normal v \<Rightarrow> f v w | Thrown e \<Rightarrow> (Thrown e, w) | NoFuel \<Rightarrow> (NoFuel, w)))"

section \<open>DisposableRegistry\<close>

definition registry_of :: "ctx \<Rightarrow> world \<Rightarrow> val list" where
  "registry_of c w =
     (case c of
        Host \<Rightarrow> host_registry w
      | Scope s \<Rightarrow> (case lookup (scopes w) s of None \<Rightarrow> [] | Some sc \<Rightarrow> registry sc))"

definition set_registry :: "ctx \<Rightarrow> val list \<Rightarrow> world \<Rightarrow> world" where
  "set_registry c xs w =
     (case c of
        Host \<Rightarrow> w\<lparr>host_registry := xs\<rparr>
      | Scope s \<Rightarrow>
          (case lookup (scopes w) s of
             None \<Rightarrow> w
           | Some sc \<Rightarrow> w\<lparr>scopes := (scopes w)[s := sc\<lparr>registry := xs\<rparr>]\<rparr>))"

text \<open>\<^verbatim>\<open>register\<close>: push onto the list of the registry that context \<open>c\<close> owns.\<close>

definition register :: "ctx \<Rightarrow> val \<Rightarrow> world \<Rightarrow> world" where
  "register c disposable w = set_registry c (registry_of c w @ [disposable]) w"

text \<open>\<^verbatim>\<open>Symbol.asyncDispose in item\<close> and \<^verbatim>\<open>Symbol.dispose in item\<close>, for an object.\<close>

definition has_asyncDispose :: "world \<Rightarrow> val \<Rightarrow> bool" where
  "has_asyncDispose w item =
     (case item of
        VObj r \<Rightarrow> (case lookup (objects w) r of None \<Rightarrow> False | Some ob \<Rightarrow> async_release ob \<noteq> Absent)
      | VCtx c \<Rightarrow> True
      | _ \<Rightarrow> False)"

definition has_dispose :: "world \<Rightarrow> val \<Rightarrow> bool" where
  "has_dispose w item =
     (case item of
        VObj r \<Rightarrow> (case lookup (objects w) r of None \<Rightarrow> False | Some ob \<Rightarrow> sync_release ob \<noteq> Absent)
      | _ \<Rightarrow> False)"

definition invoke_release :: "release \<Rightarrow> event \<Rightarrow> unit run" where
  "invoke_release rel e w =
     (case rel of
        Absent \<Rightarrow> (Normal (), w)
      | Completes \<Rightarrow> (Normal (), log e w)
      | Fails err \<Rightarrow> (Thrown err, log e w))"

text \<open>
  The first statement of the loop body: \<^verbatim>\<open>if (Symbol.asyncDispose in item) await item[Symbol.asyncDispose]()\<close>.
  A context in the list is torn down through \<open>d\<close>, the teardown of contexts.
\<close>

definition release_async :: "(ctx \<Rightarrow> unit run) \<Rightarrow> val \<Rightarrow> unit run" where
  "release_async d item w =
     (if \<not> is_object item then (Thrown (TypeError ''in: not an object''), w)
      else case item of
        VObj r \<Rightarrow>
          (case lookup (objects w) r of
             None \<Rightarrow> (Normal (), w)
           | Some ob \<Rightarrow> invoke_release (async_release ob) (AsyncReleased r) w)
      | VCtx c \<Rightarrow> d c w
      | _ \<Rightarrow> (Normal (), w))"

text \<open>The second statement: \<^verbatim>\<open>if (Symbol.dispose in item) item[Symbol.dispose]()\<close>.\<close>

definition release_sync :: "val \<Rightarrow> unit run" where
  "release_sync item w =
     (if \<not> is_object item then (Thrown (TypeError ''in: not an object''), w)
      else case item of
        VObj r \<Rightarrow>
          (case lookup (objects w) r of
             None \<Rightarrow> (Normal (), w)
           | Some ob \<Rightarrow> invoke_release (sync_release ob) (SyncReleased r) w)
      | _ \<Rightarrow> (Normal (), w))"

definition release_item :: "(ctx \<Rightarrow> unit run) \<Rightarrow> val \<Rightarrow> unit run" where
  "release_item d item w = and_then (release_async d item w) (\<lambda>_. release_sync item)"

text \<open>\<^verbatim>\<open>for (const item of oldDispose)\<close>.\<close>

fun release_all :: "(ctx \<Rightarrow> unit run) \<Rightarrow> val list \<Rightarrow> unit run" where
  "release_all d [] w = (Normal (), w)"
| "release_all d (item # rest) w = and_then (release_item d item w) (\<lambda>_. release_all d rest)"

text \<open>\<^verbatim>\<open>DisposableRegistry[Symbol.asyncDispose]\<close> of the registry that context \<open>c\<close> owns.\<close>

definition registry_asyncDispose :: "(ctx \<Rightarrow> unit run) \<Rightarrow> ctx \<Rightarrow> unit run" where
  "registry_asyncDispose d c w =
     (let oldDispose = registry_of c w;
          w1 = set_registry c [] w
      in release_all d oldDispose w1)"

text \<open>
  \<^verbatim>\<open>[Symbol.asyncDispose]\<close> of a context (host and scope alike hand over to their registry).
  The number bounds how deeply contexts found in registries are torn down in turn.
\<close>

primrec teardown :: "nat \<Rightarrow> ctx \<Rightarrow> unit run" where
  "teardown 0 c w = (NoFuel, w)"
| "teardown (Suc n) c w = registry_asyncDispose (teardown n) c w"

section \<open>Running application code, construction and property injection\<close>

text \<open>
  Running application code against the \<^verbatim>\<open>get\<close> method \<open>g\<close> of the context it was handed.
\<close>

primrec run_code :: "code \<Rightarrow> (key \<Rightarrow> val run) \<Rightarrow> val run" where
  "run_code (Return v) g w = (Normal v, w)"
| "run_code (Throw e) g w = (Thrown e, w)"
| "run_code (New a s k) g w =
     run_code (k (VObj (length (objects w)))) g
       (w\<lparr>objects := objects w @ [\<lparr>async_release = a, sync_release = s, props = Map.empty\<rparr>]\<rparr>)"
| "run_code (Get dep k) g w =
     (case g dep w of (r, w1) \<Rightarrow>
        (case r of
           Normal v \<Rightarrow> run_code (k v) g w1
         | Thrown e \<Rightarrow> (Thrown e, w1)
         | NoFuel \<Rightarrow> (NoFuel, w1)))"

text \<open>
  The function value behind a key. A class of the module itself, used as a constructor, gives
  an object that inherits \<^verbatim>\<open>[Symbol.asyncDispose]\<close> from \<^verbatim>\<open>ServiceCollection\<close> with a registry of
  its own that holds nothing; no code of the model reaches its other methods.
\<close>

definition callable_of :: "world \<Rightarrow> key \<Rightarrow> callable" where
  "callable_of w f =
     (case f of
        KUser n \<Rightarrow> funs w n
      | _ \<Rightarrow> \<lparr>ctor = Some (\<lambda>args. Return VUndefined), body = None,
              proto_async = Completes, proto_sync = Absent, metadata = []\<rparr>)"

text \<open>
  \<^verbatim>\<open>new f(...args)\<close>: a fresh object inheriting from the prototype is \<^verbatim>\<open>this\<close>; the result is
  what the constructor returns when that is an object, and \<^verbatim>\<open>this\<close> otherwise.
\<close>

definition construct :: "getf \<Rightarrow> ctx \<Rightarrow> key \<Rightarrow> val list \<Rightarrow> val run" where
  "construct g c f args w =
     (case ctor (callable_of w f) of
        None \<Rightarrow> (Thrown (TypeError ''not a constructor''), w)
      | Some b \<Rightarrow>
          (let this = VObj (length (objects w));
               w1 = log (Constructed f)
                      (w\<lparr>objects := objects w @
                          [\<lparr>async_release = proto_async (callable_of w f),
                            sync_release = proto_sync (callable_of w f),
                            props = Map.empty\<rparr>]\<rparr>)
           in and_then (run_code (b args) (g c) w1)
                (\<lambda>v w2. (Normal (if is_object v then v else this), w2))))"

text \<open>\<^verbatim>\<open>f(...args)\<close>: a class constructor cannot be invoked without \<^verbatim>\<open>new\<close>.\<close>

definition call_plain :: "getf \<Rightarrow> ctx \<Rightarrow> key \<Rightarrow> val list \<Rightarrow> val run" where
  "call_plain g c f args w =
     (case body (callable_of w f) of
        None \<Rightarrow> (Thrown (TypeError ''class constructor invoked without new''), w)
      | Some b \<Rightarrow> run_code (b args) (g c) (log (Called f) w))"

text \<open>\<^verbatim>\<open>value[key] = v\<close> on a heap object.\<close>

definition set_prop :: "val \<Rightarrow> string \<Rightarrow> val \<Rightarrow> world \<Rightarrow> world" where
  "set_prop target name v w =
     (case target of
        VObj r \<Rightarrow>
          (case lookup (objects w) r of
             None \<Rightarrow> w
           | Some ob \<Rightarrow> w\<lparr>objects := (objects w)[r := ob\<lparr>props := (props ob)(name \<mapsto> v)\<rparr>]\<rparr>)
      | _ \<Rightarrow> w)"

text \<open>
  \<^verbatim>\<open>getInjectionMetadata\<close>. For a function without a prototype the lookup itself throws; the
  model throws one step later, in \<open>construct\<close>, and nothing happens in between.
\<close>

definition getInjectionMetadata :: "world \<Rightarrow> key \<Rightarrow> (string \<times> key) list" where
  "getInjectionMetadata w target = metadata (callable_of w target)"

text \<open>The loop of \<^verbatim>\<open>ServiceCollection.inject\<close>: \<^verbatim>\<open>value[key] = this.get(injectService)\<close>.\<close>

fun inject_props :: "getf \<Rightarrow> ctx \<Rightarrow> val \<Rightarrow> (string \<times> key) list \<Rightarrow> val run" where
  "inject_props g self target [] w = (Normal target, w)"
| "inject_props g self target ((name, injectService) # rest) w =
     and_then (g self injectService w)
       (\<lambda>v w1. inject_props g self target rest (set_prop target name v w1))"

text \<open>\<^verbatim>\<open>ServiceCollection.inject\<close> on the context \<open>self\<close>.\<close>

definition inject :: "getf \<Rightarrow> ctx \<Rightarrow> key \<Rightarrow> val list \<Rightarrow> val run" where
  "inject g self service args w =
     (let injectionMetadata = getInjectionMetadata w service
      in and_then (construct g self service args w)
           (\<lambda>target w1. inject_props g self target injectionMetadata w1))"

section \<open>Factories\<close>

text \<open>
  \<^verbatim>\<open>registerIfDisposable\<close>; \<open>cb\<close> names the context whose registry the callback is bound to.
\<close>

definition registerIfDisposable :: "val \<Rightarrow> ctx \<Rightarrow> val run" where
  "registerIfDisposable inst cb w =
     (if \<not> is_object inst then (Thrown (TypeError ''in: not an object''), w)
      else if has_asyncDispose w inst \<or> has_dispose w inst
        then (Normal inst, register cb inst w)
        else (Normal inst, w))"

text \<open>
  \<^verbatim>\<open>ServiceHost.#createServiceFactory\<close>: which closure is returned for a binding shape.
\<close>

definition createServiceFactory :: "key \<Rightarrow> val \<Rightarrow> factory" where
  "createServiceFactory base service =
     (case service of
        VFun f \<Rightarrow> FCallable f
      | VArr args \<Rightarrow> FArgs base args
      | _ \<Rightarrow> FValue service)"

text \<open>
  The \<^verbatim>\<open>try\<close> block of the closure for a callable: a throw anywhere inside it is caught,
  running out of depth is not an exception of the program and passes through.
\<close>

definition try_catch :: "'a outcome \<times> world \<Rightarrow> 'a run \<Rightarrow> 'a outcome \<times> world" where
  "try_catch m handler =
     (case m of (r, w) \<Rightarrow>
        (case r of Normal v \<Rightarrow> (Normal v, w) | Thrown e \<Rightarrow> handler w | NoFuel \<Rightarrow> (NoFuel, w)))"

text \<open>Calling a factory with \<^verbatim>\<open>(collection, cb)\<close>: the bodies of the closures.\<close>

definition apply_factory :: "getf \<Rightarrow> factory \<Rightarrow> ctx \<Rightarrow> ctx \<Rightarrow> val run" where
  "apply_factory g fac collection cb w =
     (case fac of
        FCallable service \<Rightarrow>
          try_catch
            (and_then (inject g collection service [VCtx collection] w)
               (\<lambda>inst. registerIfDisposable inst cb))
            (\<lambda>w1. and_then (call_plain g collection service [VCtx collection] w1)
               (\<lambda>inst. registerIfDisposable inst cb))
      | FArgs base args \<Rightarrow>
          and_then (inject g collection base args w) (\<lambda>inst. registerIfDisposable inst cb)
      | FValue v \<Rightarrow> registerIfDisposable v cb w
      | FUser c \<Rightarrow> run_code c (g collection) w)"

text \<open>\<^verbatim>\<open>tagged.factory(services, registerDisposable)\<close> for the binding object at \<open>tagged\<close>.\<close>

definition call_factory :: "getf \<Rightarrow> nat \<Rightarrow> factory \<Rightarrow> ctx \<Rightarrow> ctx \<Rightarrow> val run" where
  "call_factory g tagged fac collection cb w =
     apply_factory g fac collection cb (log (FactoryCalled tagged collection) w)"

section \<open>Lifetime dispatch and resolution\<close>

text \<open>
  \<^verbatim>\<open>getFromTaggedService\<close>. The binding is passed by reference, so the model takes its
  address; tag and factory of a binding object never change, so writing \<open>store\<close> rewrites the
  object with the same factory. An address that holds no binding takes the last branch.
\<close>

definition getFromTaggedService :: "getf \<Rightarrow> ctx \<Rightarrow> nat \<Rightarrow> ctx \<Rightarrow> val run" where
  "getFromTaggedService g collection tagged registerDisposable w =
     (case lookup (bindings w) tagged of
        Some (Transient fac) \<Rightarrow> call_factory g tagged fac collection registerDisposable w
      | Some (Singleton fac store) \<Rightarrow>
          (if truthy store then (Normal store, w)
           else and_then (call_factory g tagged fac collection registerDisposable w)
                  (\<lambda>v w1. (Normal v, w1\<lparr>bindings := (bindings w1)[tagged := Singleton fac v]\<rparr>)))
      | Some (Scoped fac) \<Rightarrow> (Thrown (TypeError ''Cannot create service outside of scope''), w)
      | None \<Rightarrow> (Thrown (TypeError ''Invalid tag''), w))"

text \<open>\<^verbatim>\<open>ServiceHost.getTag\<close>; \<^verbatim>\<open>ServiceScope.getTag\<close> asks its base, the host.\<close>

definition getTag :: "world \<Rightarrow> key \<Rightarrow> nat option" where
  "getTag w serviceConstructor = services w serviceConstructor"

text \<open>\<^verbatim>\<open>ServiceCollection.get\<close>, the method \<^verbatim>\<open>ServiceHost.get\<close> reaches through \<^verbatim>\<open>super\<close>.\<close>

definition ServiceCollection_get :: "getf \<Rightarrow> ctx \<Rightarrow> key \<Rightarrow> val run" where
  "ServiceCollection_get g self serviceConstructor w =
     (case getTag w serviceConstructor of
        None \<Rightarrow> (Normal VUndefined, w)
      | Some tag \<Rightarrow> getFromTaggedService g self tag self w)"

definition ServiceHost_get :: "getf \<Rightarrow> key \<Rightarrow> val run" where
  "ServiceHost_get g serviceConstructor w =
     (if serviceConstructor = KServiceCollection then (Normal (VCtx Host), w)
      else if serviceConstructor = KServiceHost then (Normal (VCtx Host), w)
      else if serviceConstructor = KServiceContainer then (Normal (VCtx Host), w)
      else ServiceCollection_get g Host serviceConstructor w)"

text \<open>\<^verbatim>\<open>this.#services.get(tagged)\<close> and \<^verbatim>\<open>this.#services.set(tagged, v)\<close> of the scope \<open>s\<close>.\<close>

definition cache_get :: "world \<Rightarrow> nat \<Rightarrow> nat \<Rightarrow> val" where
  "cache_get w s tagged =
     (case lookup (scopes w) s of
        None \<Rightarrow> VUndefined
      | Some sc \<Rightarrow> (case cache sc tagged of None \<Rightarrow> VUndefined | Some v \<Rightarrow> v))"

definition cache_set :: "nat \<Rightarrow> nat \<Rightarrow> val \<Rightarrow> world \<Rightarrow> world" where
  "cache_set s tagged v w =
     (case lookup (scopes w) s of
        None \<Rightarrow> w
      | Some sc \<Rightarrow> w\<lparr>scopes := (scopes w)[s := sc\<lparr>cache := (cache sc)(tagged \<mapsto> v)\<rparr>]\<rparr>)"

text \<open>\<^verbatim>\<open>ServiceScope.get\<close> of the scope \<open>s\<close>.\<close>

definition ServiceScope_get :: "getf \<Rightarrow> nat \<Rightarrow> key \<Rightarrow> val run" where
  "ServiceScope_get g s serviceConstructor w =
     (if serviceConstructor = KServiceCollection then (Normal (VCtx (Scope s)), w)
      else case getTag w serviceConstructor of
        None \<Rightarrow> ServiceHost_get g serviceConstructor w
      | Some tagged \<Rightarrow>
          (case lookup (bindings w) tagged of
             Some (Scoped fac) \<Rightarrow>
               (let v = cache_get w s tagged
                in if truthy v then (Normal v, w)
                   else and_then (call_factory g tagged fac (Scope s) (Scope s) w)
                          (\<lambda>newValue w1. (Normal newValue, cache_set s tagged newValue w1)))
           | _ \<Rightarrow> getFromTaggedService g Host tagged Host w))"

text \<open>
  \<^verbatim>\<open>context.get(key)\<close> by the class of the context. Code that runs inside a resolution calls
  \<^verbatim>\<open>get\<close> again; the number bounds how deeply such calls nest.
\<close>

definition get_step :: "getf \<Rightarrow> getf" where
  "get_step g c serviceConstructor w =
     (case c of
        Host \<Rightarrow> ServiceHost_get g serviceConstructor w
      | Scope s \<Rightarrow> ServiceScope_get g s serviceConstructor w)"

primrec get :: "nat \<Rightarrow> getf" where
  "get 0 c serviceConstructor w = (NoFuel, w)"
| "get (Suc n) c serviceConstructor w = get_step (get n) c serviceConstructor w"

section \<open>Registration and scopes\<close>

text \<open>\<^verbatim>\<open>this.#services.set(base, {...})\<close> with a freshly created binding object.\<close>

definition bind_service :: "key \<Rightarrow> tagged_service \<Rightarrow> world \<Rightarrow> world" where
  "bind_service base t w =
     w\<lparr>services := (services w)(base \<mapsto> length (bindings w)), bindings := bindings w @ [t]\<rparr>"

definition addSingleton :: "key \<Rightarrow> val \<Rightarrow> world \<Rightarrow> world" where
  "addSingleton base service w =
     bind_service base (Singleton (createServiceFactory base service) VUndefined) w"

definition addScoped :: "key \<Rightarrow> val \<Rightarrow> world \<Rightarrow> world" where
  "addScoped base service w = bind_service base (Scoped (createServiceFactory base service)) w"

definition addTransient :: "key \<Rightarrow> val \<Rightarrow> world \<Rightarrow> world" where
  "addTransient base service w = bind_service base (Transient (createServiceFactory base service)) w"

text \<open>\<^verbatim>\<open>createScope\<close>: the new scope and the state that holds it.\<close>

definition createScope :: "world \<Rightarrow> ctx \<times> world" where
  "createScope w =
     (Scope (length (scopes w)), w\<lparr>scopes := scopes w @ [\<lparr>cache = Map.empty, registry = []\<rparr>]\<rparr>)"

text \<open>A host on which nothing has been registered yet, for the given application functions.\<close>

definition new_host :: "(nat \<Rightarrow> callable) \<Rightarrow> world" where
  "new_host fs =
     \<lparr>funs = fs, services = Map.empty, bindings = [], host_registry = [], scopes = [],
      objects = [], trace = []\<rparr>"

section \<open>What a resolution leaves unchanged\<close>

fun shape :: "tagged_service \<Rightarrow> tagged_service" where
  "shape (Singleton fac store) = Singleton fac VUndefined"
| "shape (Scoped fac) = Scoped fac"
| "shape (Transient fac) = Transient fac"

definition evolves :: "ctx \<Rightarrow> world \<Rightarrow> world \<Rightarrow> bool" where
  "evolves c w w' \<longleftrightarrow>
     funs w' = funs w \<and> services w' = services w \<and>
     map shape (bindings w') = map shape (bindings w) \<and>
     length (scopes w') = length (scopes w) \<and>
     (\<forall>t. c \<noteq> Scope t \<longrightarrow> lookup (scopes w') t = lookup (scopes w) t) \<and>
     (\<exists>es. trace w' = trace w @ es) \<and>
     length (objects w) \<le> length (objects w')"

definition tame :: "getf \<Rightarrow> ctx \<Rightarrow> bool" where
  "tame g c \<longleftrightarrow> (\<forall>k w r w'. g c k w = (r, w') \<longrightarrow> evolves c w w')"

section \<open>A small application, for concrete runs\<close>

text \<open>A class whose instances expose both release methods.\<close>

definition resource_class :: callable where
  "resource_class =
     \<lparr>ctor = Some (\<lambda>args. Return VUndefined), body = None,
      proto_async = Completes, proto_sync = Completes, metadata = []\<rparr>"

text \<open>An arrow function that returns the number zero.\<close>

definition zero_arrow :: callable where
  "zero_arrow =
     \<lparr>ctor = None, body = Some (\<lambda>args. Return (VNum 0)),
      proto_async = Absent, proto_sync = Absent, metadata = []\<rparr>"

text \<open>
  A plain function: constructed with \<^verbatim>\<open>new\<close> its body throws, called directly it returns a new
  object with a synchronous release method.
\<close>

definition picky_function :: callable where
  "picky_function =
     \<lparr>ctor = Some (\<lambda>args. Throw (UserError ''refused'')),
      body = Some (\<lambda>args. New Absent Completes Return),
      proto_async = Absent, proto_sync = Absent, metadata = []\<rparr>"

definition demo_funs :: "nat \<Rightarrow> callable" where
  "demo_funs n = (if n = 0 then resource_class else if n = 1 then zero_arrow else picky_function)"

text \<open>A host with the disposable class registered as a singleton under its own key.\<close>

definition singleton_world :: world where
  "singleton_world = addSingleton (KUser 0) (VFun (KUser 0)) (new_host demo_funs)"

text \<open>
  A container whose table binds a key of the application, as a singleton and as scoped, to a
  factory that returns the number zero: a \<^verbatim>\<open>ServiceFactory\<close> that the host does not build, as
  the \<^verbatim>\<open>getTag\<close> of another \<^verbatim>\<open>ServiceContainer\<close> may return it. For such a key \<^verbatim>\<open>ServiceHost.get\<close> is
  \<^verbatim>\<open>ServiceCollection.get\<close>, the method every container inherits.
\<close>

definition zero_singleton_world :: world where
  "zero_singleton_world =
     bind_service (KUser 1) (Singleton (FUser (Return (VNum 0))) VUndefined) (new_host demo_funs)"

definition zero_scoped_world :: world where
  "zero_scoped_world =
     snd (createScope (bind_service (KUser 1) (Scoped (FUser (Return (VNum 0)))) (new_host demo_funs)))"

text \<open>A host with the disposable class registered as scoped, and two scopes of it.\<close>

definition scoped_world :: world where
  "scoped_world =
     snd (createScope (snd (createScope (addScoped (KUser 0) (VFun (KUser 0)) (new_host demo_funs)))))"

text \<open>A factory that \<^verbatim>\<open>#createServiceFactory\<close> built: its last step is \<^verbatim>\<open>registerIfDisposable\<close>.\<close>

fun host_built :: "factory \<Rightarrow> bool" where
  "host_built (FUser p) = False"
| "host_built fac = True"

text \<open>
  A host with the disposable class registered as a transient and one scope; a host with the
  plain function registered as a transient.
\<close>

definition transient_world :: world where
  "transient_world = snd (createScope (addTransient (KUser 0) (VFun (KUser 0)) (new_host demo_funs)))"

definition picky_world :: world where
  "picky_world = addTransient (KUser 2) (VFun (KUser 2)) (new_host demo_funs)"

section \<open>Observing a teardown\<close>

fun fails :: "release \<Rightarrow> bool" where
  "fails (Fails e) = True"
| "fails rel = False"

text \<open>
  An item of a registry that is an object of the application (not a context) and whose
  release methods, where it has them, complete.
\<close>

definition settles :: "world \<Rightarrow> val \<Rightarrow> bool" where
  "settles w item =
     (case item of
        VObj r \<Rightarrow>
          (case lookup (objects w) r of
             None \<Rightarrow> True
           | Some ob \<Rightarrow> \<not> fails (async_release ob) \<and> \<not> fails (sync_release ob))
      | VFun f \<Rightarrow> True
      | VArr xs \<Rightarrow> True
      | _ \<Rightarrow> False)"

text \<open>The release methods such an item has, in the order the loop body invokes them.\<close>

definition release_events :: "world \<Rightarrow> val \<Rightarrow> event list" where
  "release_events w item =
     (case item of
        VObj r \<Rightarrow>
          (case lookup (objects w) r of
             None \<Rightarrow> []
           | Some ob \<Rightarrow>
               (if async_release ob = Absent then [] else [AsyncReleased r]) @
               (if sync_release ob = Absent then [] else [SyncReleased r]))
      | _ \<Rightarrow> [])"

text \<open>A teardown of contexts that never puts anything into an empty registry.\<close>

definition keeps_empty :: "(ctx \<Rightarrow> unit run) \<Rightarrow> bool" where
  "keeps_empty d \<longleftrightarrow>
     (\<forall>c w r w'. d c w = (r, w') \<longrightarrow> (\<forall>c'. registry_of c' w = [] \<longrightarrow> registry_of c' w' = []))"

text \<open>
  A host whose three transients are the disposable class, resolved once each (in the order
  of the keys 3, 4, 5), so that its registry holds the three instances in that order.
\<close>

definition three_resources_world :: world where
  "three_resources_world =
     snd (get (Suc 0) Host (KUser 5)
       (snd (get (Suc 0) Host (KUser 4)
         (snd (get (Suc 0) Host (KUser 3)
           (addTransient (KUser 5) (VFun (KUser 0))
             (addTransient (KUser 4) (VFun (KUser 0))
               (addTransient (KUser 3) (VFun (KUser 0)) (new_host demo_funs)))))))))"

text \<open>The context is the host or a scope that \<^verbatim>\<open>createScope\<close> has made.\<close>

definition ctx_exists :: "world \<Rightarrow> ctx \<Rightarrow> bool" where
  "ctx_exists w c = (case c of Host \<Rightarrow> True | Scope s \<Rightarrow> s < length (scopes w))"

text \<open>
  The key \<^verbatim>\<open>ServiceCollection\<close> itself bound: as a transient to the disposable class on a host
  with one scope, and as scoped to the factory that returns zero on a container with one scope.
\<close>

definition self_transient_world :: world where
  "self_transient_world =
     snd (createScope (addTransient KServiceCollection (VFun (KUser 0)) (new_host demo_funs)))"

definition self_scoped_world :: world where
  "self_scoped_world =
     snd (createScope
       (bind_service KServiceCollection (Scoped (FUser (Return (VNum 0)))) (new_host demo_funs)))"

section \<open>Lemmas about resolutions\<close>

lemma evolves_refl: "evolves c w w"
  by (simp add: evolves_def)

lemma evolves_trans: "evolves c w w1 \<Longrightarrow> evolves c w1 w2 \<Longrightarrow> evolves c w w2"
  by (auto simp: evolves_def)

lemma evolves_Host: "evolves Host w w' \<Longrightarrow> evolves c w w'"
  by (auto simp: evolves_def)

lemma and_then_cases:
  assumes "and_then m f = (r, w')"
  obtains (normal) v w1 where "m = (Normal v, w1)" "f v w1 = (r, w')"
        | (thrown) e where "m = (Thrown e, w')" "r = Thrown e"
        | (nofuel) "m = (NoFuel, w')" "r = NoFuel"
  using assms by (auto simp: and_then_def split: prod.splits outcome.splits)

lemma run_code_evolves:
  assumes "tame g c"
  shows "run_code p (g c) w = (r, w') \<Longrightarrow> evolves c w w'"
proof (induction p arbitrary: w)
  case (Return v) then show ?case by (simp add: evolves_refl)
next
  case (Throw e) then show ?case by (simp add: evolves_refl)
next
  case (New a s k)
  let ?w1 = "w\<lparr>objects := objects w @ [\<lparr>async_release = a, sync_release = s, props = Map.empty\<rparr>]\<rparr>"
  have "evolves c w ?w1" by (simp add: evolves_def)
  moreover have "evolves c ?w1 w'" using New.IH[OF rangeI] New.prems by simp
  ultimately show ?case by (rule evolves_trans)
next
  case (Get dep k)
  obtain r1 w1 where g: "g c dep w = (r1, w1)" by (cases "g c dep w")
  then have e1: "evolves c w w1" using assms by (auto simp: tame_def)
  show ?case
  proof (cases r1)
    case (Normal v)
    then have "run_code (k v) (g c) w1 = (r, w')" using Get.prems g by simp
    then have "evolves c w1 w'" by (rule Get.IH[OF rangeI])
    with e1 show ?thesis by (rule evolves_trans)
  next
    case (Thrown e) then show ?thesis using Get.prems g e1 by simp
  next
    case NoFuel then show ?thesis using Get.prems g e1 by simp
  qed
qed

lemma construct_evolves:
  assumes "tame g c" and "construct g c f args w = (r, w')"
  shows "evolves c w w'"
proof (cases "ctor (callable_of w f)")
  case None
  then show ?thesis using assms(2) by (simp add: construct_def evolves_refl)
next
  case (Some b)
  define w1 where "w1 = log (Constructed f)
     (w\<lparr>objects := objects w @ [\<lparr>async_release = proto_async (callable_of w f),
        sync_release = proto_sync (callable_of w f), props = Map.empty\<rparr>]\<rparr>)"
  have e1: "evolves c w w1" by (simp add: w1_def evolves_def log_def)
  from assms(2) Some have "and_then (run_code (b args) (g c) w1)
      (\<lambda>v w2. (Normal (if is_object v then v else VObj (length (objects w))), w2)) = (r, w')"
    by (simp add: construct_def w1_def Let_def)
  then have "evolves c w1 w'"
    by (cases rule: and_then_cases) (auto dest: run_code_evolves[OF assms(1)])
  with e1 show ?thesis by (rule evolves_trans)
qed

lemma call_plain_evolves:
  assumes "tame g c" and "call_plain g c f args w = (r, w')"
  shows "evolves c w w'"
proof (cases "body (callable_of w f)")
  case None
  then show ?thesis using assms(2) by (simp add: call_plain_def evolves_refl)
next
  case (Some b)
  have e1: "evolves c w (log (Called f) w)" by (simp add: evolves_def log_def)
  from assms(2) Some have "run_code (b args) (g c) (log (Called f) w) = (r, w')"
    by (simp add: call_plain_def)
  then have "evolves c (log (Called f) w) w'" by (rule run_code_evolves[OF assms(1)])
  with e1 show ?thesis by (rule evolves_trans)
qed

lemma set_prop_evolves: "evolves c w (set_prop target name v w)"
  by (auto simp: set_prop_def evolves_def split: val.splits option.splits)

lemma inject_props_evolves:
  assumes "tame g c"
  shows "inject_props g c target ms w = (r, w') \<Longrightarrow> evolves c w w'"
proof (induction ms arbitrary: w)
  case Nil then show ?case by (simp add: evolves_refl)
next
  case (Cons m ms)
  obtain name dep where m: "m = (name, dep)" by (cases m)
  from Cons.prems have "and_then (g c dep w)
      (\<lambda>v w1. inject_props g c target ms (set_prop target name v w1)) = (r, w')"
    by (simp add: m)
  then show ?case
  proof (cases rule: and_then_cases)
    case (normal v w1)
    have "evolves c w w1" using assms normal(1) by (auto simp: tame_def)
    moreover have "evolves c w1 (set_prop target name v w1)" by (rule set_prop_evolves)
    moreover have "evolves c (set_prop target name v w1) w'" using normal(2) by (rule Cons.IH)
    ultimately show ?thesis by (blast intro: evolves_trans)
  next
    case (thrown e) then show ?thesis using assms by (auto simp: tame_def)
  next
    case nofuel then show ?thesis using assms by (auto simp: tame_def)
  qed
qed

lemma inject_evolves:
  assumes "tame g c" and "inject g c f args w = (r, w')"
  shows "evolves c w w'"
proof -
  from assms(2) have "and_then (construct g c f args w)
      (\<lambda>target w1. inject_props g c target (getInjectionMetadata w f) w1) = (r, w')"
    by (simp add: inject_def)
  then show ?thesis
    by (cases rule: and_then_cases)
       (blast intro: evolves_trans construct_evolves[OF assms(1)] inject_props_evolves[OF assms(1)])+
qed


lemma lookup_update: "lookup (xs[i := x]) j = (if j = i \<and> i < length xs then Some x else lookup xs j)"
  by (simp add: lookup_def)

lemma set_registry_evolves: "evolves c w (set_registry c xs w)"
  by (auto simp: set_registry_def evolves_def lookup_update split: ctx.splits option.splits)

lemma register_evolves: "evolves c w (register c v w)"
  by (simp add: register_def set_registry_evolves)

lemma registerIfDisposable_evolves:
  "registerIfDisposable v c w = (r, w') \<Longrightarrow> evolves c w w'"
  by (auto simp: registerIfDisposable_def evolves_refl register_evolves split: if_splits)

lemma try_catch_cases:
  assumes "try_catch m h = (r, w')"
  obtains (normal) v where "m = (Normal v, w')" "r = Normal v"
        | (caught) e w1 where "m = (Thrown e, w1)" "h w1 = (r, w')"
        | (nofuel) "m = (NoFuel, w')" "r = NoFuel"
  using assms by (auto simp: try_catch_def split: prod.splits outcome.splits)

lemma inject_register_evolves:
  assumes "tame g c"
    and "and_then (inject g c f args w) (\<lambda>inst. registerIfDisposable inst c) = (r, w')"
  shows "evolves c w w'"
  using assms(2)
  by (cases rule: and_then_cases)
     (blast intro: evolves_trans inject_evolves[OF assms(1)] registerIfDisposable_evolves)+

lemma call_register_evolves:
  assumes "tame g c"
    and "and_then (call_plain g c f args w) (\<lambda>inst. registerIfDisposable inst c) = (r, w')"
  shows "evolves c w w'"
  using assms(2)
  by (cases rule: and_then_cases)
     (blast intro: evolves_trans call_plain_evolves[OF assms(1)] registerIfDisposable_evolves)+

lemma apply_factory_evolves:
  assumes "tame g c" and "apply_factory g fac c c w = (r, w')"
  shows "evolves c w w'"
proof (cases fac)
  case (FCallable service)
  with assms(2) have "try_catch
      (and_then (inject g c service [VCtx c] w) (\<lambda>inst. registerIfDisposable inst c))
      (\<lambda>w1. and_then (call_plain g c service [VCtx c] w1) (\<lambda>inst. registerIfDisposable inst c))
      = (r, w')"
    by (simp add: apply_factory_def)
  then show ?thesis
    by (cases rule: try_catch_cases)
       (blast intro: evolves_trans inject_register_evolves[OF assms(1)]
          call_register_evolves[OF assms(1)])+
next
  case (FArgs base args)
  with assms(2) show ?thesis
    by (auto simp: apply_factory_def intro: inject_register_evolves[OF assms(1)])
next
  case (FValue v)
  with assms(2) show ?thesis
    by (auto simp: apply_factory_def intro: registerIfDisposable_evolves)
next
  case (FUser p)
  with assms(2) show ?thesis
    by (auto simp: apply_factory_def intro: run_code_evolves[OF assms(1)])
qed

lemma call_factory_evolves:
  assumes "tame g c" and "call_factory g a fac c c w = (r, w')"
  shows "evolves c w w'"
proof -
  have "evolves c w (log (FactoryCalled a c) w)" by (simp add: evolves_def log_def)
  moreover have "evolves c (log (FactoryCalled a c) w) w'"
    using assms(2) unfolding call_factory_def by (rule apply_factory_evolves[OF assms(1)])
  ultimately show ?thesis by (rule evolves_trans)
qed

lemma evolves_binding:
  assumes "evolves c w w'" and "lookup (bindings w) a = Some b"
  shows "\<exists>b'. lookup (bindings w') a = Some b' \<and> shape b' = shape b"
proof -
  from assms(1) have m: "map shape (bindings w') = map shape (bindings w)"
    by (simp add: evolves_def)
  then have len: "length (bindings w') = length (bindings w)" by (rule map_eq_imp_length_eq)
  from assms(2) have a: "a < length (bindings w)" and b: "bindings w ! a = b"
    by (auto simp: lookup_def split: if_splits)
  have "map shape (bindings w') ! a = map shape (bindings w) ! a" using m by simp
  then have "shape (bindings w' ! a) = shape b" using a b len by simp
  then show ?thesis using a len by (simp add: lookup_def)
qed

lemma store_update_evolves:
  assumes "lookup (bindings w) a = Some b" and "shape b = shape (Singleton fac v)"
  shows "evolves c w (w\<lparr>bindings := (bindings w)[a := Singleton fac v]\<rparr>)"
proof -
  from assms(1) have a: "a < length (bindings w)" and b: "bindings w ! a = b"
    by (auto simp: lookup_def split: if_splits)
  have "map shape ((bindings w)[a := Singleton fac v]) = (map shape (bindings w))[a := shape b]"
    by (simp add: map_update assms(2))
  also have "\<dots> = map shape (bindings w)" using a b by (simp add: list_update_same_conv)
  finally show ?thesis by (simp add: evolves_def)
qed

lemma getFromTaggedService_evolves:
  assumes "tame g c" and "getFromTaggedService g c a c w = (r, w')"
  shows "evolves c w w'"
proof (cases "lookup (bindings w) a")
  case None
  with assms(2) show ?thesis by (simp add: getFromTaggedService_def evolves_refl)
next
  case (Some b)
  show ?thesis
  proof (cases b)
    case (Scoped fac)
    with Some assms(2) show ?thesis by (simp add: getFromTaggedService_def evolves_refl)
  next
    case (Transient fac)
    with Some assms(2) show ?thesis
      by (auto simp: getFromTaggedService_def intro: call_factory_evolves[OF assms(1)])
  next
    case (Singleton fac store)
    show ?thesis
    proof (cases "truthy store")
      case True
      with Some Singleton assms(2) show ?thesis by (simp add: getFromTaggedService_def evolves_refl)
    next
      case False
      with Some Singleton assms(2) have "and_then (call_factory g a fac c c w)
          (\<lambda>v w1. (Normal v, w1\<lparr>bindings := (bindings w1)[a := Singleton fac v]\<rparr>)) = (r, w')"
        by (simp add: getFromTaggedService_def)
      then show ?thesis
      proof (cases rule: and_then_cases)
        case (normal v w1)
        have e1: "evolves c w w1" using normal(1) by (rule call_factory_evolves[OF assms(1)])
        then obtain b' where "lookup (bindings w1) a = Some b'" "shape b' = shape b"
          using Some evolves_binding by blast
        then have "evolves c w1 (w1\<lparr>bindings := (bindings w1)[a := Singleton fac v]\<rparr>)"
          using Singleton by (intro store_update_evolves) auto
        with e1 normal(2) show ?thesis by (auto intro: evolves_trans)
      next
        case (thrown e) then show ?thesis by (auto intro: call_factory_evolves[OF assms(1)])
      next
        case nofuel then show ?thesis by (auto intro: call_factory_evolves[OF assms(1)])
      qed
    qed
  qed
qed

lemma ServiceHost_get_evolves:
  assumes "tame g Host" and "ServiceHost_get g k w = (r, w')"
  shows "evolves Host w w'"
  using assms(2)
  by (auto simp: ServiceHost_get_def ServiceCollection_get_def evolves_refl
      split: if_splits option.splits intro: getFromTaggedService_evolves[OF assms(1)])

lemma cache_set_evolves: "evolves (Scope s) w (cache_set s a v w)"
  by (auto simp: cache_set_def evolves_def lookup_update split: option.splits)

lemma ServiceScope_get_evolves:
  assumes "tame g Host" and "tame g (Scope s)" and "ServiceScope_get g s k w = (r, w')"
  shows "evolves (Scope s) w w'"
proof (cases "k = KServiceCollection")
  case True
  with assms(3) show ?thesis by (simp add: ServiceScope_get_def evolves_refl)
next
  case notself: False
  show ?thesis
  proof (cases "getTag w k")
    case None
    with notself assms(3) have "ServiceHost_get g k w = (r, w')" by (simp add: ServiceScope_get_def)
    then show ?thesis by (rule evolves_Host[OF ServiceHost_get_evolves[OF assms(1)]])
  next
    case (Some a)
    have host: "getFromTaggedService g Host a Host w = (r, w') \<Longrightarrow> ?thesis"
      by (rule evolves_Host[OF getFromTaggedService_evolves[OF assms(1)]])
    show ?thesis
    proof (cases "lookup (bindings w) a")
      case None
      with notself Some assms(3) show ?thesis by (auto simp: ServiceScope_get_def intro: host)
    next
      case b: (Some b)
      show ?thesis
      proof (cases b)
        case (Transient fac)
        with notself Some b assms(3) show ?thesis by (auto simp: ServiceScope_get_def intro: host)
      next
        case (Singleton fac store)
        with notself Some b assms(3) show ?thesis by (auto simp: ServiceScope_get_def intro: host)
      next
        case (Scoped fac)
        show ?thesis
        proof (cases "truthy (cache_get w s a)")
          case True
          with notself Some b Scoped assms(3) show ?thesis
            by (simp add: ServiceScope_get_def evolves_refl)
        next
          case False
          with notself Some b Scoped assms(3) have "and_then
              (call_factory g a fac (Scope s) (Scope s) w)
              (\<lambda>newValue w1. (Normal newValue, cache_set s a newValue w1)) = (r, w')"
            by (simp add: ServiceScope_get_def)
          then show ?thesis
            by (cases rule: and_then_cases)
               (auto intro: evolves_trans call_factory_evolves[OF assms(2)] cache_set_evolves)
        qed
      qed
    qed
  qed
qed

lemma get_tame: "tame (get n) c"
proof (induction n arbitrary: c)
  case 0
  show ?case by (simp add: tame_def evolves_refl)
next
  case (Suc n)
  show ?case
    unfolding tame_def
  proof (intro allI impI)
    fix k w r w'
    assume "get (Suc n) c k w = (r, w')"
    then show "evolves c w w'"
      by (cases c)
         (auto simp: get_step_def intro: ServiceHost_get_evolves[OF Suc] ServiceScope_get_evolves[OF Suc Suc])
  qed
qed

lemma get_evolves: "get n c k w = (r, w') \<Longrightarrow> evolves c w w'"
  using get_tame[of n c] by (auto simp: tame_def)

text \<open>The definitions a concrete run unfolds.\<close>

lemmas model_defs =
  lookup_def log_def and_then_def try_catch_def registry_of_def set_registry_def register_def
  has_asyncDispose_def has_dispose_def invoke_release_def release_async_def release_sync_def
  release_item_def registry_asyncDispose_def callable_of_def construct_def call_plain_def
  set_prop_def getInjectionMetadata_def inject_def registerIfDisposable_def
  createServiceFactory_def apply_factory_def call_factory_def getFromTaggedService_def
  getTag_def ServiceCollection_get_def ServiceHost_get_def cache_get_def cache_set_def
  ServiceScope_get_def get_step_def bind_service_def addSingleton_def addScoped_def
  addTransient_def createScope_def new_host_def
  resource_class_def zero_arrow_def picky_function_def demo_funs_def

lemmas demo_defs = singleton_world_def zero_singleton_world_def zero_scoped_world_def scoped_world_def

subsection \<open>Bindings and the trace across a resolution\<close>

lemma evolves_services: "evolves c w w' \<Longrightarrow> getTag w' k = getTag w k"
  by (simp add: evolves_def getTag_def)

lemma evolves_trace: "evolves c w w' \<Longrightarrow> \<exists>es. trace w' = trace w @ es"
  by (simp add: evolves_def)

lemma evolves_scopes_length: "evolves c w w' \<Longrightarrow> length (scopes w') = length (scopes w)"
  by (simp add: evolves_def)

lemma evolves_singleton:
  assumes "evolves c w w'" and "lookup (bindings w) a = Some (Singleton fac store)"
  shows "\<exists>store'. lookup (bindings w') a = Some (Singleton fac store')"
proof -
  obtain b' where b': "lookup (bindings w') a = Some b'" "shape b' = shape (Singleton fac store)"
    using evolves_binding[OF assms] by blast
  then show ?thesis by (cases b') auto
qed

lemma evolves_scoped:
  assumes "evolves c w w'" and "lookup (bindings w) a = Some (Scoped fac)"
  shows "lookup (bindings w') a = Some (Scoped fac)"
proof -
  obtain b' where b': "lookup (bindings w') a = Some b'" "shape b' = shape (Scoped fac)"
    using evolves_binding[OF assms] by blast
  then show ?thesis by (cases b') auto
qed

lemma call_factory_trace:
  assumes "tame g c" and "call_factory g a fac c c w = (r, w1)"
  shows "\<exists>es. trace w1 = trace w @ FactoryCalled a c # es"
proof -
  from assms(2) have "apply_factory g fac c c (log (FactoryCalled a c) w) = (r, w1)"
    by (simp add: call_factory_def)
  then have "evolves c (log (FactoryCalled a c) w) w1" by (rule apply_factory_evolves[OF assms(1)])
  then show ?thesis by (auto simp: evolves_def log_def)
qed

text \<open>What the singleton branch does when the slot holds nothing truthy.\<close>

lemma singleton_miss:
  assumes "lookup (bindings w) a = Some (Singleton fac store)" and "\<not> truthy store"
    and "getFromTaggedService g c a cb w = (r, w')"
  obtains w1 where "call_factory g a fac c cb w = (r, w1)"
    and "\<And>v. r = Normal v \<Longrightarrow> w' = w1\<lparr>bindings := (bindings w1)[a := Singleton fac v]\<rparr>"
    and "(\<forall>v. r \<noteq> Normal v) \<Longrightarrow> w' = w1"
proof -
  from assms have "and_then (call_factory g a fac c cb w)
      (\<lambda>v w1. (Normal v, w1\<lparr>bindings := (bindings w1)[a := Singleton fac v]\<rparr>)) = (r, w')"
    by (simp add: getFromTaggedService_def)
  then show ?thesis
    by (cases rule: and_then_cases) (auto intro: that)
qed

lemma host_get_bound:
  assumes "getTag w k = Some a"
    and "k \<noteq> KServiceCollection" and "k \<noteq> KServiceContainer" and "k \<noteq> KServiceHost"
  shows "get (Suc n) Host k w = getFromTaggedService (get n) Host a Host w"
  using assms by (simp add: get_step_def ServiceHost_get_def ServiceCollection_get_def)

lemma host_get_identity:
  assumes "k = KServiceCollection \<or> k = KServiceContainer \<or> k = KServiceHost"
  shows "get (Suc n) Host k w = (Normal (VCtx Host), w)"
  using assms by (auto simp: get_step_def ServiceHost_get_def)

lemma singleton_hit:
  assumes "lookup (bindings w) a = Some (Singleton fac store)" and "truthy store"
  shows "getFromTaggedService g c a cb w = (Normal store, w)"
  using assms by (simp add: getFromTaggedService_def)

lemma singleton_stored:
  assumes "lookup (bindings w) a = Some (Singleton fac store)" and "\<not> truthy store"
    and "getFromTaggedService (get n) c a c w = (Normal v, w')"
  shows "lookup (bindings w') a = Some (Singleton fac v) \<and> getTag w' k = getTag w k"
proof -
  from assms obtain w1 where cf: "call_factory (get n) a fac c c w = (Normal v, w1)"
    and w': "w' = w1\<lparr>bindings := (bindings w1)[a := Singleton fac v]\<rparr>"
    by (auto elim: singleton_miss)
  have ev: "evolves c w w1" using cf by (rule call_factory_evolves[OF get_tame])
  then obtain s' where "lookup (bindings w1) a = Some (Singleton fac s')"
    using assms(1) evolves_singleton by blast
  then have "a < length (bindings w1)" by (simp add: lookup_def split: if_splits)
  then have "lookup (bindings w') a = Some (Singleton fac v)" by (simp add: w' lookup_def)
  moreover have "getTag w' k = getTag w k" using ev by (simp add: w' getTag_def evolves_def)
  ultimately show ?thesis by simp
qed

subsection \<open>The scoped branch of a scope\<close>

lemma scope_get_scoped:
  assumes "k \<noteq> KServiceCollection" and "getTag w k = Some a"
    and "lookup (bindings w) a = Some (Scoped fac)"
  shows "get (Suc n) (Scope s) k w =
     (if truthy (cache_get w s a) then (Normal (cache_get w s a), w)
      else and_then (call_factory (get n) a fac (Scope s) (Scope s) w)
             (\<lambda>newValue w1. (Normal newValue, cache_set s a newValue w1)))"
  using assms by (simp add: get_step_def ServiceScope_get_def Let_def)

lemma scope_get_self: "get (Suc n) (Scope s) KServiceCollection w = (Normal (VCtx (Scope s)), w)"
  by (simp add: get_step_def ServiceScope_get_def)

lemma scoped_miss:
  assumes "k \<noteq> KServiceCollection" and "getTag w k = Some a"
    and "lookup (bindings w) a = Some (Scoped fac)" and "\<not> truthy (cache_get w s a)"
    and "get (Suc n) (Scope s) k w = (r, w')"
  obtains w1 where "call_factory (get n) a fac (Scope s) (Scope s) w = (r, w1)"
    and "\<And>v. r = Normal v \<Longrightarrow> w' = cache_set s a v w1"
    and "(\<forall>v. r \<noteq> Normal v) \<Longrightarrow> w' = w1"
proof -
  have "and_then (call_factory (get n) a fac (Scope s) (Scope s) w)
      (\<lambda>newValue w1. (Normal newValue, cache_set s a newValue w1)) = (r, w')"
    using assms(4,5) scope_get_scoped[OF assms(1-3), of n s] by simp
  then show ?thesis
    by (cases rule: and_then_cases) (auto intro: that)
qed

lemma cache_set_same:
  "s < length (scopes w) \<Longrightarrow> cache_get (cache_set s a v w) s a = v"
  by (simp add: cache_get_def cache_set_def lookup_def)

lemma cache_set_entry:
  "s < length (scopes w) \<Longrightarrow> cache (scopes (cache_set s a v w) ! s) a = Some v"
  by (simp add: cache_set_def lookup_def)

lemma cache_set_frame:
  "getTag (cache_set s a v w) k = getTag w k"
  "bindings (cache_set s a v w) = bindings w"
  "trace (cache_set s a v w) = trace w"
  "length (scopes (cache_set s a v w)) = length (scopes w)"
  by (simp_all add: cache_set_def getTag_def split: option.splits)


text \<open>After a miss that produced a value, the scope holds it under the binding.\<close>

lemma scoped_stored:
  assumes "k \<noteq> KServiceCollection" and "getTag w k = Some a"
    and "lookup (bindings w) a = Some (Scoped fac)" and "\<not> truthy (cache_get w s a)"
    and "s < length (scopes w)"
    and "get (Suc n) (Scope s) k w = (Normal v, w')"
  shows "cache_get w' s a = v \<and> cache (scopes w' ! s) a = Some v"
proof -
  obtain w1 where cf: "call_factory (get n) a fac (Scope s) (Scope s) w = (Normal v, w1)"
    and w': "w' = cache_set s a v w1"
    using scoped_miss[OF assms(1-4) assms(6)] by blast
  have "evolves (Scope s) w w1" using cf by (rule call_factory_evolves[OF get_tame])
  then have "s < length (scopes w1)" using assms(5) by (simp add: evolves_def)
  then show ?thesis by (simp add: w' cache_set_same cache_set_entry)
qed

lemmas demo_defs2 = transient_world_def picky_world_def

subsection \<open>Delegation from a scope to the host\<close>

lemma scope_get_delegated:
  assumes "k \<noteq> KServiceCollection" and "getTag w k = Some a"
    and "lookup (bindings w) a = Some b" and "\<forall>fac. b \<noteq> Scoped fac"
  shows "get (Suc n) (Scope s) k w = getFromTaggedService (get n) Host a Host w"
  using assms by (cases b) (simp_all add: get_step_def ServiceScope_get_def)

lemma evolves_Host_scopes:
  assumes "evolves Host w w'"
  shows "scopes w' = scopes w"
proof (rule nth_equalityI)
  show len: "length (scopes w') = length (scopes w)" using assms by (simp add: evolves_def)
  fix i
  assume i: "i < length (scopes w')"
  have "lookup (scopes w') i = lookup (scopes w) i" using assms by (simp add: evolves_def)
  then show "scopes w' ! i = scopes w ! i" using i len by (simp add: lookup_def)
qed

lemma registerIfDisposable_Host:
  assumes "registerIfDisposable v Host w = (Normal u, w')"
  shows "u = v \<and> objects w' = objects w \<and>
     (has_asyncDispose w v \<or> has_dispose w v \<longrightarrow> host_registry w' = host_registry w @ [v])"
  using assms
  by (auto simp: registerIfDisposable_def register_def set_registry_def registry_of_def
      split: if_splits)

lemma disposable_objects:
  "objects w' = objects w \<Longrightarrow> has_asyncDispose w' v = has_asyncDispose w v"
  "objects w' = objects w \<Longrightarrow> has_dispose w' v = has_dispose w v"
  by (cases v; simp add: has_asyncDispose_def has_dispose_def)+

lemma registered_last:
  assumes "and_then m (\<lambda>inst. registerIfDisposable inst Host) = (Normal v, w')"
    and "has_asyncDispose w' v \<or> has_dispose w' v"
  shows "\<exists>xs. host_registry w' = xs @ [v]"
  using assms(1)
proof (cases rule: and_then_cases)
  case (normal u w1)
  have r: "objects w' = objects w1"
    "has_asyncDispose w1 v \<or> has_dispose w1 v \<longrightarrow> host_registry w' = host_registry w1 @ [v]"
    using registerIfDisposable_Host[OF normal(2)] by simp_all
  have "has_asyncDispose w1 v \<or> has_dispose w1 v"
    using assms(2) disposable_objects[OF r(1), of v] by simp
  with r(2) show ?thesis by blast
next
  case (thrown e)
  then show ?thesis by simp
next
  case nofuel
  then show ?thesis by simp
qed

lemma apply_factory_registers:
  assumes "host_built fac" and "apply_factory g fac Host Host w = (Normal v, w')"
    and "has_asyncDispose w' v \<or> has_dispose w' v"
  shows "\<exists>xs. host_registry w' = xs @ [v]"
proof (cases fac)
  case (FCallable service)
  with assms(2) have "try_catch
      (and_then (inject g Host service [VCtx Host] w) (\<lambda>inst. registerIfDisposable inst Host))
      (\<lambda>w1. and_then (call_plain g Host service [VCtx Host] w1) (\<lambda>inst. registerIfDisposable inst Host))
      = (Normal v, w')"
    by (simp add: apply_factory_def)
  then show ?thesis
  proof (cases rule: try_catch_cases)
    case (normal u)
    then show ?thesis using assms(3) by (intro registered_last) auto
  next
    case (caught e w1)
    from caught(2) assms(3) show ?thesis by (rule registered_last)
  next
    case nofuel
    then show ?thesis by simp
  qed
next
  case (FArgs base args)
  with assms(2) have "and_then (inject g Host base args w) (\<lambda>inst. registerIfDisposable inst Host)
      = (Normal v, w')"
    by (simp add: apply_factory_def)
  then show ?thesis using assms(3) by (rule registered_last)
next
  case (FValue u)
  with assms(2) have "and_then (Normal u, w) (\<lambda>inst. registerIfDisposable inst Host) = (Normal v, w')"
    by (simp add: apply_factory_def and_then_def)
  then show ?thesis using assms(3) by (rule registered_last)
next
  case (FUser p)
  with assms(1) show ?thesis by simp
qed

subsection \<open>What \<open>inject\<close> returns\<close>

lemma inject_props_target:
  "inject_props g c target ms w = (Normal v, w') \<Longrightarrow> v = target"
proof (induction ms arbitrary: w)
  case Nil
  then show ?case by simp
next
  case (Cons m ms)
  obtain name dep where m: "m = (name, dep)" by (cases m)
  from Cons.prems have "and_then (g c dep w)
      (\<lambda>u w1. inject_props g c target ms (set_prop target name u w1)) = (Normal v, w')"
    by (simp add: m)
  then show ?case
    by (cases rule: and_then_cases) (auto dest: Cons.IH)
qed

lemma construct_object:
  assumes "construct g c f args w = (Normal v, w')"
  shows "is_object v"
proof (cases "ctor (callable_of w f)")
  case None
  with assms show ?thesis by (simp add: construct_def)
next
  case (Some b)
  with assms have "and_then
      (run_code (b args) (g c) (log (Constructed f)
         (w\<lparr>objects := objects w @ [\<lparr>async_release = proto_async (callable_of w f),
            sync_release = proto_sync (callable_of w f), props = Map.empty\<rparr>]\<rparr>)))
      (\<lambda>u w2. (Normal (if is_object u then u else VObj (length (objects w))), w2)) = (Normal v, w')"
    by (simp add: construct_def Let_def)
  then show ?thesis
    by (cases rule: and_then_cases) (auto split: if_splits)
qed

lemma inject_object:
  assumes "inject g c f args w = (Normal v, w')"
  shows "is_object v"
proof -
  from assms have "and_then (construct g c f args w)
      (\<lambda>target w1. inject_props g c target (getInjectionMetadata w f) w1) = (Normal v, w')"
    by (simp add: inject_def)
  then show ?thesis
  proof (cases rule: and_then_cases)
    case (normal target w1)
    then show ?thesis using construct_object inject_props_target by blast
  qed simp_all
qed

lemma registerIfDisposable_object:
  "is_object v \<Longrightarrow> fst (registerIfDisposable v cb w) = Normal v"
  by (simp add: registerIfDisposable_def)

subsection \<open>Teardown\<close>

lemma settles_trace [simp]: "settles (w\<lparr>trace := t\<rparr>) = settles w"
proof
  fix item
  show "settles (w\<lparr>trace := t\<rparr>) item = settles w item"
    by (cases item) (simp_all add: settles_def)
qed

lemma release_events_trace [simp]: "release_events (w\<lparr>trace := t\<rparr>) = release_events w"
proof
  fix item
  show "release_events (w\<lparr>trace := t\<rparr>) item = release_events w item"
    by (cases item) (simp_all add: release_events_def)
qed

lemma invoke_release_settled:
  "\<not> fails rel \<Longrightarrow>
   invoke_release rel e w = (Normal (), w\<lparr>trace := trace w @ (if rel = Absent then [] else [e])\<rparr>)"
  by (cases rel) (simp_all add: invoke_release_def log_def)

lemma release_item_settled:
  assumes "settles w item"
  shows "release_item d item w = (Normal (), w\<lparr>trace := trace w @ release_events w item\<rparr>)"
proof (cases item)
  case (VObj r)
  show ?thesis
  proof (cases "lookup (objects w) r")
    case None
    with VObj show ?thesis
      by (simp add: release_item_def release_async_def release_sync_def release_events_def and_then_def)
  next
    case (Some ob)
    with VObj assms have nf: "\<not> fails (async_release ob)" "\<not> fails (sync_release ob)"
      by (simp_all add: settles_def)
    show ?thesis using VObj Some
      by (simp add: release_item_def release_async_def release_sync_def release_events_def
          and_then_def invoke_release_settled[OF nf(1)] invoke_release_settled[OF nf(2)])
  qed
qed (use assms in \<open>simp_all add: settles_def release_item_def release_async_def release_sync_def
       release_events_def and_then_def\<close>)

lemma release_all_settled:
  "\<forall>item \<in> set items. settles w item \<Longrightarrow>
   release_all d items w = (Normal (), w\<lparr>trace := trace w @ concat (map (release_events w) items)\<rparr>)"
proof (induction items arbitrary: w)
  case Nil
  then show ?case by simp
next
  case (Cons item items)
  have 1: "release_item d item w = (Normal (), w\<lparr>trace := trace w @ release_events w item\<rparr>)"
    using Cons.prems by (simp add: release_item_settled)
  have 2: "release_all d items (w\<lparr>trace := trace w @ release_events w item\<rparr>) =
      (Normal (), w\<lparr>trace := trace w @ release_events w item @ concat (map (release_events w) items)\<rparr>)"
    using Cons.prems by (subst Cons.IH) simp_all
  show ?case by (simp add: 1 2 and_then_def)
qed

lemma registry_of_set_registry:
  "registry_of c' (set_registry c [] w) = (if c' = c then [] else registry_of c' w)"
  by (cases c; cases c')
     (auto simp: registry_of_def set_registry_def lookup_def split: option.splits)

lemma release_item_keeps_empty:
  assumes "keeps_empty d" and "release_item d item w = (r, w')" and "registry_of c' w = []"
  shows "registry_of c' w' = []"
proof -
  have logged: "registry_of c' (log e u) = registry_of c' u" for e u
    by (cases c') (simp_all add: registry_of_def log_def)
  have inv: "invoke_release rel e u = (q, u') \<Longrightarrow> registry_of c' u' = registry_of c' u" for rel e u q u'
    by (cases rel) (auto simp: invoke_release_def logged)
  have a: "release_async d item u = (q, u') \<Longrightarrow> registry_of c' u = [] \<Longrightarrow> registry_of c' u' = []"
    for u q u'
    using assms(1)
    by (cases item) (auto simp: release_async_def keeps_empty_def inv split: option.splits)
  have s: "release_sync item u = (q, u') \<Longrightarrow> registry_of c' u = [] \<Longrightarrow> registry_of c' u' = []"
    for u q u'
    by (cases item) (auto simp: release_sync_def inv split: option.splits)
  from assms(2) have "and_then (release_async d item w) (\<lambda>_. release_sync item) = (r, w')"
    by (simp add: release_item_def)
  then show ?thesis
    by (cases rule: and_then_cases) (use a s assms(3) in blast)+
qed

lemma release_all_keeps_empty:
  assumes "keeps_empty d"
  shows "release_all d items w = (r, w') \<Longrightarrow> registry_of c' w = [] \<Longrightarrow> registry_of c' w' = []"
proof (induction items arbitrary: w)
  case Nil
  then show ?case by simp
next
  case (Cons item items)
  from Cons.prems(1) have "and_then (release_item d item w) (\<lambda>_. release_all d items) = (r, w')"
    by simp
  then show ?case
    by (cases rule: and_then_cases)
       (use release_item_keeps_empty[OF assms] Cons.IH Cons.prems(2) in blast)+
qed

lemma registry_asyncDispose_empties:
  assumes "keeps_empty d" and "registry_asyncDispose d c w = (r, w')"
  shows "registry_of c w' = []" and "registry_of c' w = [] \<Longrightarrow> registry_of c' w' = []"
proof -
  from assms(2) have ra: "release_all d (registry_of c w) (set_registry c [] w) = (r, w')"
    by (simp add: registry_asyncDispose_def Let_def)
  show "registry_of c w' = []"
    using release_all_keeps_empty[OF assms(1) ra, of c] by (simp add: registry_of_set_registry)
  show "registry_of c' w = [] \<Longrightarrow> registry_of c' w' = []"
    using release_all_keeps_empty[OF assms(1) ra, of c'] by (simp add: registry_of_set_registry)
qed

lemma teardown_keeps_empty: "keeps_empty (teardown n)"
proof (induction n)
  case 0
  show ?case by (simp add: keeps_empty_def)
next
  case (Suc n)
  show ?case
    unfolding keeps_empty_def
    using registry_asyncDispose_empties(2)[OF Suc] by auto
qed

lemma set_registry_empty_id: "registry_of c w = [] \<Longrightarrow> set_registry c [] w = w"
  by (cases c) (auto simp: registry_of_def set_registry_def lookup_def list_update_same_conv
      split: option.splits if_splits)

lemma teardown_drained:
  "registry_of c w = [] \<Longrightarrow> teardown (Suc m) c w = (Normal (), w)"
  by (simp add: registry_asyncDispose_def set_registry_empty_id)


lemma set_registry_frame:
  "settles (set_registry c xs w) = settles w"
  "release_events (set_registry c xs w) = release_events w"
  "trace (set_registry c xs w) = trace w"
proof -
  have o: "objects (set_registry c xs w) = objects w"
    by (cases c) (simp_all add: set_registry_def split: option.splits)
  show "settles (set_registry c xs w) = settles w"
  proof
    fix item
    show "settles (set_registry c xs w) item = settles w item"
      by (cases item) (simp_all add: settles_def o)
  qed
  show "release_events (set_registry c xs w) = release_events w"
  proof
    fix item
    show "release_events (set_registry c xs w) item = release_events w item"
      by (cases item) (simp_all add: release_events_def o)
  qed
  show "trace (set_registry c xs w) = trace w"
    by (cases c) (simp_all add: set_registry_def split: option.splits)
qed

lemma teardown_run_settled:
  assumes "\<forall>item \<in> set (registry_of c w). settles w item"
  shows "teardown (Suc n) c w =
     (Normal (),
      (set_registry c [] w)\<lparr>trace := trace w @ concat (map (release_events w) (registry_of c w))\<rparr>)"
proof -
  have "release_all (teardown n) (registry_of c w) (set_registry c [] w) =
      (Normal (), (set_registry c [] w)\<lparr>trace := trace (set_registry c [] w) @
         concat (map (release_events (set_registry c [] w)) (registry_of c w))\<rparr>)"
    using assms by (intro release_all_settled) (simp add: set_registry_frame)
  then show ?thesis
    by (simp add: registry_asyncDispose_def set_registry_frame)
qed

lemma three_resources:
  "registry_of Host three_resources_world = [VObj 0, VObj 1, VObj 2]"
  "lookup (objects three_resources_world) 0 =
     Some \<lparr>async_release = Completes, sync_release = Completes, props = Map.empty\<rparr>"
  "lookup (objects three_resources_world) (Suc 0) =
     Some \<lparr>async_release = Completes, sync_release = Completes, props = Map.empty\<rparr>"
  "lookup (objects three_resources_world) 2 =
     Some \<lparr>async_release = Completes, sync_release = Completes, props = Map.empty\<rparr>"
  "trace three_resources_world =
     [FactoryCalled 0 Host, Constructed (KUser 0), FactoryCalled 1 Host, Constructed (KUser 0),
      FactoryCalled 2 Host, Constructed (KUser 0)]"
  by (simp_all add: three_resources_world_def model_defs)

lemma register_appends:
  "ctx_exists w c \<Longrightarrow> registry_of c (register c v w) = registry_of c w @ [v]"
  by (cases c) (simp_all add: ctx_exists_def register_def registry_of_def set_registry_def lookup_def)


subsection \<open>Factories built by the host return objects\<close>

text \<open>
  \<^verbatim>\<open>registerIfDisposable\<close> applies \<^verbatim>\<open>in\<close> to the instance, and \<^verbatim>\<open>in\<close> throws on a primitive. Every
  falsy value is a primitive, so a factory built by \<^verbatim>\<open>#createServiceFactory\<close> never returns one:
  the slot of a singleton and the cache of a scope can hold a falsy value only for a
  factory of another origin.
\<close>

lemma object_truthy: "is_object v \<Longrightarrow> truthy v"
  by (cases v) simp_all

lemma registerIfDisposable_returns_object:
  "registerIfDisposable inst cb w = (Normal v, w') \<Longrightarrow> is_object v"
  by (auto simp: registerIfDisposable_def split: if_splits)

lemma registered_object:
  assumes "and_then m (\<lambda>inst. registerIfDisposable inst cb) = (Normal v, w')"
  shows "is_object v"
  using assms
  by (cases rule: and_then_cases) (auto dest: registerIfDisposable_returns_object)

lemma host_built_never_falsy:
  assumes "host_built fac" and "apply_factory g fac c cb w = (Normal v, w')"
  shows "is_object v \<and> truthy v"
proof -
  have "is_object v"
  proof (cases fac)
    case (FCallable service)
    with assms(2) have "try_catch
        (and_then (inject g c service [VCtx c] w) (\<lambda>inst. registerIfDisposable inst cb))
        (\<lambda>w1. and_then (call_plain g c service [VCtx c] w1) (\<lambda>inst. registerIfDisposable inst cb))
        = (Normal v, w')"
      by (simp add: apply_factory_def)
    then show ?thesis
    proof (cases rule: try_catch_cases)
      case (normal u)
      then show ?thesis using registered_object[of _ cb v w'] by simp
    next
      case (caught e w1)
      then show ?thesis using registered_object by blast
    next
      case nofuel
      then show ?thesis by simp
    qed
  next
    case (FArgs base args)
    with assms(2) show ?thesis by (auto simp: apply_factory_def dest: registered_object)
  next
    case (FValue u)
    with assms(2) show ?thesis
      by (auto simp: apply_factory_def dest: registerIfDisposable_returns_object)
  next
    case (FUser p)
    with assms(1) show ?thesis by simp
  qed
  then show ?thesis by (simp add: object_truthy)
qed

lemmas demo_defs3 = self_transient_world_def self_scoped_world_def

section \<open>Self-resolution, unregistered keys and scoped keys on the host\<close>

text \<open>
  Claim C8. \<^verbatim>\<open>get\<close> on the host with the key \<^verbatim>\<open>ServiceCollection\<close>, \<^verbatim>\<open>ServiceContainer\<close> or
  \<^verbatim>\<open>ServiceHost\<close> returns the host itself and leaves the state as it was, in every state:
  whatever the binding table holds, it is not consulted, and nothing needs to be registered.
\<close>

theorem host_self_resolution:
  "get (Suc n) Host KServiceCollection w = (Normal (VCtx Host), w) \<and>
   get (Suc n) Host KServiceContainer w = (Normal (VCtx Host), w) \<and>
   get (Suc n) Host KServiceHost w = (Normal (VCtx Host), w)"
  by (simp add: get_step_def ServiceHost_get_def)

text \<open>A run: the host still answers with itself after \<^verbatim>\<open>ServiceHost\<close> was bound as a transient.\<close>

theorem host_self_resolution_witness:
  "fst (get (Suc 0) Host KServiceHost (addTransient KServiceHost (VNum 5) (new_host demo_funs)))
     = Normal (VCtx Host) \<and>
   getTag (addTransient KServiceHost (VNum 5) (new_host demo_funs)) KServiceHost = Some 0"
  using host_self_resolution [of 0 "addTransient KServiceHost (VNum 5) (new_host demo_funs)"]
  by (simp add: getTag_def addTransient_def bind_service_def new_host_def)

text \<open>
  Claim C3, as stated, fails for the three keys the host resolves to itself: with nothing
  registered, \<^verbatim>\<open>host.get(ServiceHost)\<close> is the host and not \<^verbatim>\<open>undefined\<close>.
\<close>

theorem unregistered_identity_key_counterexample:
  "getTag (new_host demo_funs) KServiceHost = None \<and>
   fst (get (Suc 0) Host KServiceHost (new_host demo_funs)) = Normal (VCtx Host) \<and>
   fst (get (Suc 0) Host KServiceHost (new_host demo_funs)) \<noteq> Normal VUndefined"
  by (simp add: model_defs)

text \<open>
  Claim C3, amended. For every key other than \<^verbatim>\<open>ServiceCollection\<close>, \<^verbatim>\<open>ServiceContainer\<close> and
  \<^verbatim>\<open>ServiceHost\<close> that the binding table does not hold, \<^verbatim>\<open>get\<close> on the host and on any scope
  returns \<^verbatim>\<open>undefined\<close>; it throws nothing and changes nothing.
\<close>

theorem unregistered_key_not_found:
  assumes "getTag w k = None"
    and "k \<noteq> KServiceCollection" and "k \<noteq> KServiceContainer" and "k \<noteq> KServiceHost"
  shows "get (Suc n) c k w = (Normal VUndefined, w)"
  using assms
  by (cases c)
     (simp_all add: get_step_def ServiceHost_get_def ServiceScope_get_def ServiceCollection_get_def)

text \<open>A run on a fresh host and on a scope of it.\<close>

theorem unregistered_key_not_found_witness:
  "get (Suc 0) Host (KUser 7) (new_host demo_funs) = (Normal VUndefined, new_host demo_funs) \<and>
   get (Suc 0) (Scope 0) (KUser 7) (snd (createScope (new_host demo_funs)))
     = (Normal VUndefined, snd (createScope (new_host demo_funs)))"
  using unregistered_key_not_found [of "new_host demo_funs" "KUser 7" 0 Host]
    unregistered_key_not_found [of "snd (createScope (new_host demo_funs))" "KUser 7" 0 "Scope 0"]
  by (simp add: getTag_def new_host_def createScope_def)

text \<open>
  Claim C4, as stated, fails for the same three keys: after \<^verbatim>\<open>addScoped(ServiceHost, ...)\<close> the key is
  bound as scoped, and \<^verbatim>\<open>host.get(ServiceHost)\<close> returns the host instead of throwing.
\<close>

theorem scoped_identity_key_counterexample:
  "getTag (addScoped KServiceHost (VFun (KUser 0)) (new_host demo_funs)) KServiceHost = Some 0 \<and>
   lookup (bindings (addScoped KServiceHost (VFun (KUser 0)) (new_host demo_funs))) 0
     = Some (Scoped (FCallable (KUser 0))) \<and>
   fst (get (Suc 0) Host KServiceHost (addScoped KServiceHost (VFun (KUser 0)) (new_host demo_funs)))
     = Normal (VCtx Host)"
  by (simp add: model_defs)

text \<open>
  Claim C4, amended. For every key other than \<^verbatim>\<open>ServiceCollection\<close>, \<^verbatim>\<open>ServiceContainer\<close> and
  \<^verbatim>\<open>ServiceHost\<close> that is bound as scoped, \<^verbatim>\<open>get\<close> on the host throws the \<^verbatim>\<open>TypeError\<close>
  "Cannot create service outside of scope"; the factory is not invoked and the state stays.
\<close>

theorem scoped_key_on_host_throws:
  assumes "getTag w k = Some a" and "lookup (bindings w) a = Some (Scoped fac)"
    and "k \<noteq> KServiceCollection" and "k \<noteq> KServiceContainer" and "k \<noteq> KServiceHost"
  shows "get (Suc n) Host k w = (Thrown (TypeError ''Cannot create service outside of scope''), w)"
  using assms
  by (simp add: get_step_def ServiceHost_get_def ServiceCollection_get_def getFromTaggedService_def)

text \<open>A run after \<^verbatim>\<open>addScoped\<close> for a class of the application.\<close>

theorem scoped_key_on_host_throws_witness:
  "get (Suc 0) Host (KUser 0) (addScoped (KUser 0) (VFun (KUser 0)) (new_host demo_funs)) =
     (Thrown (TypeError ''Cannot create service outside of scope''),
      addScoped (KUser 0) (VFun (KUser 0)) (new_host demo_funs))"
  using scoped_key_on_host_throws [of "addScoped (KUser 0) (VFun (KUser 0)) (new_host demo_funs)"
      "KUser 0" 0 "FCallable (KUser 0)" 0]
  by (simp add: getTag_def lookup_def addScoped_def bind_service_def new_host_def
      createServiceFactory_def)

section \<open>Singletons\<close>

text \<open>
  Claim C1. For a key bound as singleton: when the slot holds a truthy value the lifetime
  dispatch returns it and does nothing else; when it does not, the dispatch invokes the
  factory and, if that returns a value, writes the value into the slot and returns it. So
  a resolution through \<^verbatim>\<open>get\<close> on the host that returned a truthy instance is followed by
  resolutions that return the same instance and change nothing. A slot that holds
  nothing truthy makes \<^verbatim>\<open>get\<close> invoke the factory (the trace grows by the call), and a falsy
  result is written to the slot, which therefore still holds nothing truthy: the next
  resolution invokes the factory again. (The last part is about the keys for which \<^verbatim>\<open>get\<close> on
  the host reaches the binding; for the three keys the host answers with itself it never does.)
\<close>

theorem singleton_caches_truthy_only:
  assumes "getTag w k = Some a" and "lookup (bindings w) a = Some (Singleton fac store)"
  shows
    "(truthy store \<longrightarrow> getFromTaggedService g c a cb w = (Normal store, w)) \<and>
     (\<not> truthy store \<longrightarrow> call_factory g a fac c cb w = (Normal v, w1) \<longrightarrow>
        getFromTaggedService g c a cb w =
          (Normal v, w1\<lparr>bindings := (bindings w1)[a := Singleton fac v]\<rparr>)) \<and>
     (get (Suc n) Host k w = (Normal v, w') \<longrightarrow> truthy v \<longrightarrow>
        get (Suc m) Host k w' = (Normal v, w')) \<and>
     (\<not> truthy store \<longrightarrow> k \<noteq> KServiceCollection \<longrightarrow> k \<noteq> KServiceContainer \<longrightarrow>
      k \<noteq> KServiceHost \<longrightarrow> get (Suc n) Host k w = (r, w') \<longrightarrow>
        (\<exists>es. trace w' = trace w @ FactoryCalled a Host # es) \<and>
        (\<forall>u. r = Normal u \<longrightarrow> \<not> truthy u \<longrightarrow>
           getTag w' k = Some a \<and> lookup (bindings w') a = Some (Singleton fac u)))"
proof (intro conjI impI)
  assume "truthy store"
  then show "getFromTaggedService g c a cb w = (Normal store, w)"
    using assms(2) by (rule singleton_hit[rotated])
next
  assume "\<not> truthy store" and "call_factory g a fac c cb w = (Normal v, w1)"
  then show "getFromTaggedService g c a cb w =
      (Normal v, w1\<lparr>bindings := (bindings w1)[a := Singleton fac v]\<rparr>)"
    using assms(2) by (simp add: getFromTaggedService_def and_then_def)
next
  assume run: "get (Suc n) Host k w = (Normal v, w')" and tv: "truthy v"
  show "get (Suc m) Host k w' = (Normal v, w')"
  proof (cases "k = KServiceCollection \<or> k = KServiceContainer \<or> k = KServiceHost")
    case True
    then show ?thesis
      using run host_get_identity[OF True, of n w] host_get_identity[OF True, of m w'] by simp
  next
    case False
    then have ne: "k \<noteq> KServiceCollection" "k \<noteq> KServiceContainer" "k \<noteq> KServiceHost" by auto
    have d: "getFromTaggedService (get n) Host a Host w = (Normal v, w')"
      using run host_get_bound[OF assms(1) ne] by simp
    show ?thesis
    proof (cases "truthy store")
      case True
      then have "v = store" "w' = w" using d singleton_hit[OF assms(2)] by auto
      then show ?thesis
        using True host_get_bound[OF assms(1) ne] singleton_hit[OF assms(2)] by simp
    next
      case False
      have st: "lookup (bindings w') a = Some (Singleton fac v)" and tg: "getTag w' k = Some a"
        using singleton_stored[OF assms(2) False d, of k] assms(1) by auto
      show ?thesis
        using host_get_bound[OF tg ne] singleton_hit[OF st tv] by simp
    qed
  qed
next
  assume f: "\<not> truthy store" and ne: "k \<noteq> KServiceCollection" "k \<noteq> KServiceContainer"
    "k \<noteq> KServiceHost" and run: "get (Suc n) Host k w = (r, w')"
  have d: "getFromTaggedService (get n) Host a Host w = (r, w')"
    using run host_get_bound[OF assms(1) ne] by simp
  from assms(2) f d obtain w1 where cf: "call_factory (get n) a fac Host Host w = (r, w1)"
    and tr: "trace w' = trace w1"
    by (cases r) (auto elim!: singleton_miss)
  show "\<exists>es. trace w' = trace w @ FactoryCalled a Host # es"
    using call_factory_trace[OF get_tame cf] tr by simp
  show "\<forall>u. r = Normal u \<longrightarrow> \<not> truthy u \<longrightarrow>
      getTag w' k = Some a \<and> lookup (bindings w') a = Some (Singleton fac u)"
    using singleton_stored[OF assms(2) f, of n Host _ w' k] d assms(1) by auto
qed

text \<open>
  Runs: the disposable class as a singleton resolves twice to the object at address 0; a
  singleton whose factory returns zero has its factory called by each of two resolutions.
\<close>

theorem singleton_caches_truthy_only_witness:
  "fst (get (Suc 0) Host (KUser 0) singleton_world) = Normal (VObj 0) \<and>
   get (Suc 0) Host (KUser 0) (snd (get (Suc 0) Host (KUser 0) singleton_world)) =
     (Normal (VObj 0), snd (get (Suc 0) Host (KUser 0) singleton_world)) \<and>
   fst (get (Suc 0) Host (KUser 1) zero_singleton_world) = Normal (VNum 0) \<and>
   trace (snd (get (Suc 0) Host (KUser 1) zero_singleton_world)) = [FactoryCalled 0 Host] \<and>
   lookup (bindings (snd (get (Suc 0) Host (KUser 1) zero_singleton_world))) 0 =
     Some (Singleton (FUser (Return (VNum 0))) (VNum 0)) \<and>
   trace (snd (get (Suc 0) Host (KUser 1) (snd (get (Suc 0) Host (KUser 1) zero_singleton_world))))
     = [FactoryCalled 0 Host, FactoryCalled 0 Host]"
proof -
  let ?w1 = "snd (get (Suc 0) Host (KUser 0) singleton_world)"
  let ?z1 = "snd (get (Suc 0) Host (KUser 1) zero_singleton_world)"
  have t: "getTag singleton_world (KUser 0) = Some 0"
    "lookup (bindings singleton_world) 0 = Some (Singleton (FCallable (KUser 0)) VUndefined)"
    by (simp_all add: demo_defs model_defs)
  have first: "get (Suc 0) Host (KUser 0) singleton_world = (Normal (VObj 0), ?w1)"
    by (simp add: demo_defs model_defs)
  have z: "getTag zero_singleton_world (KUser 1) = Some 0"
    "lookup (bindings zero_singleton_world) 0 = Some (Singleton (FUser (Return (VNum 0))) VUndefined)"
    by (simp_all add: demo_defs model_defs)
  have zfirst: "get (Suc 0) Host (KUser 1) zero_singleton_world = (Normal (VNum 0), ?z1)"
    by (simp add: demo_defs model_defs)
  note a = singleton_caches_truthy_only [OF t, where n = 0 and m = 0 and v = "VObj 0" and w' = ?w1]
  note b = singleton_caches_truthy_only [OF z, where n = 0 and r = "Normal (VNum 0)" and w' = ?z1]
  have again: "get (Suc 0) Host (KUser 0) ?w1 = (Normal (VObj 0), ?w1)"
    using a first by simp
  have slot: "getTag ?z1 (KUser 1) = Some 0"
    "lookup (bindings ?z1) 0 = Some (Singleton (FUser (Return (VNum 0))) (VNum 0))"
    using b zfirst by simp_all
  have tr1: "trace ?z1 = [FactoryCalled 0 Host]"
    by (simp add: demo_defs model_defs)
  have tr2: "trace (snd (get (Suc 0) Host (KUser 1) ?z1)) = [FactoryCalled 0 Host, FactoryCalled 0 Host]"
    by (simp add: demo_defs model_defs)
  show ?thesis using first again zfirst slot tr1 tr2
    by (simp del: get.simps add: prod_eq_iff)
qed

section \<open>Scoped bindings\<close>



text \<open>
  Claim C9, as stated, fails for the key \<^verbatim>\<open>ServiceCollection\<close>: \<^verbatim>\<open>ServiceScope.get\<close> answers that key
  with the scope itself before it looks at the binding. With the key bound as scoped to a
  factory that returns zero, a resolution in a scope returns the scope, invokes no factory
  (the trace stays empty) and writes no cache entry.
\<close>

theorem scoped_falsy_self_key_counterexample:
  "getTag self_scoped_world KServiceCollection = Some 0 \<and>
   lookup (bindings self_scoped_world) 0 = Some (Scoped (FUser (Return (VNum 0)))) \<and>
   fst (call_factory (get 0) 0 (FUser (Return (VNum 0))) (Scope 0) (Scope 0) self_scoped_world)
     = Normal (VNum 0) \<and>
   \<not> truthy (VNum 0) \<and>
   get (Suc 0) (Scope 0) KServiceCollection self_scoped_world =
     (Normal (VCtx (Scope 0)), self_scoped_world) \<and>
   trace self_scoped_world = [] \<and>
   cache (scopes self_scoped_world ! 0) 0 = None"
  by (simp add: demo_defs3 model_defs)

text \<open>
  Claim C9, amended. Let a key other than \<^verbatim>\<open>ServiceCollection\<close> be bound as scoped, and let the
  cache of the scope \<open>s\<close> hold nothing truthy under the binding (no entry, or a falsy one). Then
  a resolution in \<open>s\<close> invokes the factory: the test is on the truthiness of the cached value,
  not on the presence of an entry. If the factory returns a falsy value, that value is
  written over the entry, and the scope is in the same situation again, so every
  resolution invokes the factory and overwrites the entry, as long as the results are falsy.
\<close>

theorem scoped_falsy_never_cached:
  assumes "k \<noteq> KServiceCollection" and "getTag w k = Some a"
    and "lookup (bindings w) a = Some (Scoped fac)" and "s < length (scopes w)"
    and "\<not> truthy (cache_get w s a)"
    and "get (Suc n) (Scope s) k w = (r, w')"
  shows
    "(\<exists>es. trace w' = trace w @ FactoryCalled a (Scope s) # es) \<and>
     (\<forall>v. r = Normal v \<longrightarrow> \<not> truthy v \<longrightarrow>
        cache (scopes w' ! s) a = Some v \<and>
        getTag w' k = Some a \<and> lookup (bindings w') a = Some (Scoped fac) \<and>
        s < length (scopes w') \<and> \<not> truthy (cache_get w' s a))"
proof -
  obtain w1 where cf: "call_factory (get n) a fac (Scope s) (Scope s) w = (r, w1)"
    and nv: "\<And>v. r = Normal v \<Longrightarrow> w' = cache_set s a v w1"
    and ov: "(\<forall>v. r \<noteq> Normal v) \<Longrightarrow> w' = w1"
    using scoped_miss[OF assms(1-3) assms(5,6)] by blast
  have tr: "trace w' = trace w1"
    using nv ov by (cases r) (auto simp: cache_set_frame)
  have ev: "evolves (Scope s) w w'" using assms(6) by (rule get_evolves)
  have 1: "\<exists>es. trace w' = trace w @ FactoryCalled a (Scope s) # es"
    using call_factory_trace[OF get_tame cf] tr by simp
  have 2: "getTag w' k = Some a" "lookup (bindings w') a = Some (Scoped fac)"
    "s < length (scopes w')"
    using ev assms(2-4) by (simp_all add: evolves_services evolves_scoped evolves_scopes_length)
  have 3: "cache (scopes w' ! s) a = Some v \<and> cache_get w' s a = v" if "r = Normal v" for v
    using scoped_stored[OF assms(1-3) assms(5,4), of n v w'] assms(6) that by simp
  show ?thesis using 1 2 3 by auto
qed

text \<open>
  A run with a scoped factory that returns zero: two resolutions in one scope, two calls
  of the factory, and zero in the cache entry.
\<close>

theorem scoped_falsy_never_cached_witness:
  "fst (get (Suc 0) (Scope 0) (KUser 1) zero_scoped_world) = Normal (VNum 0) \<and>
   trace (snd (get (Suc 0) (Scope 0) (KUser 1) zero_scoped_world)) = [FactoryCalled 0 (Scope 0)] \<and>
   cache (scopes (snd (get (Suc 0) (Scope 0) (KUser 1) zero_scoped_world)) ! 0) 0 = Some (VNum 0) \<and>
   fst (get (Suc 0) (Scope 0) (KUser 1) (snd (get (Suc 0) (Scope 0) (KUser 1) zero_scoped_world)))
     = Normal (VNum 0) \<and>
   trace (snd (get (Suc 0) (Scope 0) (KUser 1)
       (snd (get (Suc 0) (Scope 0) (KUser 1) zero_scoped_world))))
     = [FactoryCalled 0 (Scope 0), FactoryCalled 0 (Scope 0)]"
proof -
  let ?w1 = "snd (get (Suc 0) (Scope 0) (KUser 1) zero_scoped_world)"
  let ?w2 = "snd (get (Suc 0) (Scope 0) (KUser 1) ?w1)"
  have b: "KUser 1 \<noteq> KServiceCollection" "getTag zero_scoped_world (KUser 1) = Some 0"
    "lookup (bindings zero_scoped_world) 0 = Some (Scoped (FUser (Return (VNum 0))))"
    "0 < length (scopes zero_scoped_world)" "\<not> truthy (cache_get zero_scoped_world 0 0)"
    by (simp_all add: demo_defs model_defs Let_def)
  have first: "get (Suc 0) (Scope 0) (KUser 1) zero_scoped_world = (Normal (VNum 0), ?w1)"
    by (simp add: demo_defs model_defs Let_def)
  have second: "get (Suc 0) (Scope 0) (KUser 1) ?w1 = (Normal (VNum 0), ?w2)"
    by (simp add: demo_defs model_defs Let_def)
  note one = scoped_falsy_never_cached [OF b first]
  then have again: "getTag ?w1 (KUser 1) = Some 0"
    "lookup (bindings ?w1) 0 = Some (Scoped (FUser (Return (VNum 0))))"
    "0 < length (scopes ?w1)" "\<not> truthy (cache_get ?w1 0 0)"
    and entry: "cache (scopes ?w1 ! 0) 0 = Some (VNum 0)"
    by simp_all
  note two = scoped_falsy_never_cached [OF b(1) again second]
  have tr1: "trace ?w1 = [FactoryCalled 0 (Scope 0)]"
    by (simp add: demo_defs model_defs Let_def)
  from two obtain es where "trace ?w2 = trace ?w1 @ FactoryCalled 0 (Scope 0) # es" by blast
  moreover have "length (trace ?w2) = 2" by (simp add: demo_defs model_defs Let_def)
  ultimately have tr2: "trace ?w2 = [FactoryCalled 0 (Scope 0), FactoryCalled 0 (Scope 0)]"
    using tr1 by simp
  show ?thesis using first second entry tr1 tr2
    by (simp del: get.simps add: prod_eq_iff)
qed

section \<open>Singletons and transients resolved through a scope\<close>

text \<open>
  Claim C6, as stated, fails for the key \<^verbatim>\<open>ServiceCollection\<close>: \<^verbatim>\<open>ServiceScope.get\<close> answers that key
  with the scope itself before it looks at the binding. With the key bound as a transient to
  the disposable class, the scope returns itself and nothing is delegated: the dispatch on
  the host would have made an instance and put it into the host's registry, which stays empty.
\<close>

theorem scope_self_key_not_delegated_counterexample:
  "getTag self_transient_world KServiceCollection = Some 0 \<and>
   lookup (bindings self_transient_world) 0 = Some (Transient (FCallable (KUser 0))) \<and>
   get (Suc 0) (Scope 0) KServiceCollection self_transient_world =
     (Normal (VCtx (Scope 0)), self_transient_world) \<and>
   fst (getFromTaggedService (get 0) Host 0 Host self_transient_world) = Normal (VObj 0) \<and>
   host_registry (snd (getFromTaggedService (get 0) Host 0 Host self_transient_world)) = [VObj 0] \<and>
   host_registry self_transient_world = []"
  by (simp add: demo_defs3 model_defs)

text \<open>
  Claim C6, amended. When a scope resolves a key whose binding is a singleton or a transient,
  the scopes are left as they are: neither the cache nor the registry of the resolving
  scope, or of any scope, changes. For the key \<^verbatim>\<open>ServiceCollection\<close> the scope returns itself
  and nothing else changes either. For every other key the resolution is the lifetime
  dispatch with the host as the factory's context and the host's registration callback;
  where that dispatch invoked a factory built by the host and the instance it returned is
  disposable, the instance is the last entry of the host's registry. Application code is
  taken to act on the container through the context handed to it.
\<close>

theorem scope_delegates_to_host:
  assumes "getTag w k = Some a"
    and "lookup (bindings w) a = Some b" and "\<forall>fac. b \<noteq> Scoped fac"
    and run: "get (Suc n) (Scope s) k w = (r, w')"
  shows
    "scopes w' = scopes w \<and>
     (k = KServiceCollection \<longrightarrow> r = Normal (VCtx (Scope s)) \<and> w' = w) \<and>
     (k \<noteq> KServiceCollection \<longrightarrow>
        getFromTaggedService (get n) Host a Host w = (r, w') \<and>
        (\<forall>fac v. b = Transient fac \<or> (\<exists>store. b = Singleton fac store \<and> \<not> truthy store) \<longrightarrow>
           host_built fac \<longrightarrow> r = Normal v \<longrightarrow> has_asyncDispose w' v \<or> has_dispose w' v \<longrightarrow>
           (\<exists>xs. host_registry w' = xs @ [v])))"
proof (cases "k = KServiceCollection")
  case True
  then have "r = Normal (VCtx (Scope s)) \<and> w' = w"
    using run scope_get_self[of n s w] by (simp del: get.simps)
  then show ?thesis using True by simp
next
  case ne: False
  have delegated: "getFromTaggedService (get n) Host a Host w = (r, w') \<and>
     scopes w' = scopes w \<and>
     (\<forall>fac v. b = Transient fac \<or> (\<exists>store. b = Singleton fac store \<and> \<not> truthy store) \<longrightarrow>
        host_built fac \<longrightarrow> r = Normal v \<longrightarrow> has_asyncDispose w' v \<or> has_dispose w' v \<longrightarrow>
        (\<exists>xs. host_registry w' = xs @ [v]))"
  proof (intro conjI allI impI)
    show d: "getFromTaggedService (get n) Host a Host w = (r, w')"
      using run scope_get_delegated[OF ne assms(1-3), of n s] by simp
    then have "evolves Host w w'" by (rule getFromTaggedService_evolves[OF get_tame])
    then show "scopes w' = scopes w" by (rule evolves_Host_scopes)
  next
    fix fac v
    assume inv: "b = Transient fac \<or> (\<exists>store. b = Singleton fac store \<and> \<not> truthy store)"
      and hb: "host_built fac" and r: "r = Normal v"
      and disp: "has_asyncDispose w' v \<or> has_dispose w' v"
    have d: "getFromTaggedService (get n) Host a Host w = (Normal v, w')"
      using run r scope_get_delegated[OF ne assms(1-3), of n s] by simp
    from inv show "\<exists>xs. host_registry w' = xs @ [v]"
    proof
      assume "b = Transient fac"
      with d assms(2) have "apply_factory (get n) fac Host Host (log (FactoryCalled a Host) w) = (Normal v, w')"
        by (simp add: getFromTaggedService_def call_factory_def)
      then show ?thesis using disp by (rule apply_factory_registers[OF hb])
    next
      assume "\<exists>store. b = Singleton fac store \<and> \<not> truthy store"
      then obtain store where b: "lookup (bindings w) a = Some (Singleton fac store)"
        and f: "\<not> truthy store" using assms(2) by auto
      obtain w1 where cf: "call_factory (get n) a fac Host Host w = (Normal v, w1)"
        and w': "w' = w1\<lparr>bindings := (bindings w1)[a := Singleton fac v]\<rparr>"
        using singleton_miss[OF b f d] by blast
      have "objects w' = objects w1" by (simp add: w')
      then have "has_asyncDispose w1 v \<or> has_dispose w1 v"
        using disp disposable_objects[of w' w1 v] by simp
      with cf have "\<exists>xs. host_registry w1 = xs @ [v]"
        unfolding call_factory_def by (rule apply_factory_registers[OF hb])
      then show ?thesis by (simp add: w')
    qed
  qed
  show ?thesis
  proof (intro conjI impI)
    show "scopes w' = scopes w" by (rule delegated[THEN conjunct2, THEN conjunct1])
  next
    assume "k = KServiceCollection"
    with ne show "r = Normal (VCtx (Scope s))" by simp
  next
    assume "k = KServiceCollection"
    with ne show "w' = w" by simp
  next
    show "getFromTaggedService (get n) Host a Host w = (r, w')"
      by (rule delegated[THEN conjunct1])
  next
    show "\<forall>fac v. b = Transient fac \<or> (\<exists>store. b = Singleton fac store \<and> \<not> truthy store) \<longrightarrow>
        host_built fac \<longrightarrow> r = Normal v \<longrightarrow> has_asyncDispose w' v \<or> has_dispose w' v \<longrightarrow>
        (\<exists>xs. host_registry w' = xs @ [v])"
      by (rule delegated[THEN conjunct2, THEN conjunct2])
  qed
qed

text \<open>
  A run: a scope resolves the disposable class bound as a transient; the object is in the
  host's registry and the scope is as \<^verbatim>\<open>createScope\<close> made it.
\<close>

theorem scope_delegates_to_host_witness:
  "fst (get (Suc 0) (Scope 0) (KUser 0) transient_world) = Normal (VObj 0) \<and>
   scopes (snd (get (Suc 0) (Scope 0) (KUser 0) transient_world)) = scopes transient_world \<and>
   scopes transient_world = [\<lparr>cache = Map.empty, registry = []\<rparr>] \<and>
   host_registry (snd (get (Suc 0) (Scope 0) (KUser 0) transient_world)) = [VObj 0] \<and>
   trace (snd (get (Suc 0) (Scope 0) (KUser 0) transient_world))
     = [FactoryCalled 0 Host, Constructed (KUser 0)]"
proof -
  let ?w1 = "snd (get (Suc 0) (Scope 0) (KUser 0) transient_world)"
  have b: "getTag transient_world (KUser 0) = Some 0"
    "lookup (bindings transient_world) 0 = Some (Transient (FCallable (KUser 0)))"
    "\<forall>fac. Transient (FCallable (KUser 0)) \<noteq> Scoped fac"
    by (simp_all add: demo_defs2 model_defs)
  have run: "get (Suc 0) (Scope 0) (KUser 0) transient_world = (Normal (VObj 0), ?w1)"
    by (simp add: demo_defs2 model_defs)
  note inst = scope_delegates_to_host [OF b run]
  have disp: "has_asyncDispose ?w1 (VObj 0)"
    by (simp add: demo_defs2 model_defs)
  have same: "scopes ?w1 = scopes transient_world" using inst by (simp del: get.simps)
  have "\<exists>xs. host_registry ?w1 = xs @ [VObj 0]" using inst disp by (simp del: get.simps)
  moreover have "length (host_registry ?w1) = 1" by (simp add: demo_defs2 model_defs)
  ultimately have reg: "host_registry ?w1 = [VObj 0]" by (auto simp: length_Suc_conv)
  have sc: "scopes transient_world = [\<lparr>cache = Map.empty, registry = []\<rparr>]"
    by (simp add: demo_defs2 model_defs)
  have tr: "trace ?w1 = [FactoryCalled 0 Host, Constructed (KUser 0)]"
    by (simp add: demo_defs2 model_defs)
  show ?thesis using run same sc reg tr
    by (simp del: get.simps add: prod_eq_iff)
qed

section \<open>The factory of a callable binding\<close>

text \<open>
  Claim C7. For a binding that is a function value, \<^verbatim>\<open>#createServiceFactory\<close> returns the closure
  that first calls \<^verbatim>\<open>collection.inject(service, collection)\<close>, the injection path with the
  resolution context as the only explicit argument. If that returns an instance, the factory
  returns it (after \<^verbatim>\<open>registerIfDisposable\<close>, which does not throw on it) and the function is
  never called directly. If it throws, whatever the error, the error is dropped and the
  factory goes on, from the state the failed attempt left, with the direct call
  \<^verbatim>\<open>service(collection)\<close>: the body of the function is run with the context as its argument,
  and its result goes through \<^verbatim>\<open>registerIfDisposable\<close>.
\<close>

theorem callable_factory_falls_back:
  "createServiceFactory base (VFun f) = FCallable f \<and>
   (inject g c f [VCtx c] w = (Normal inst, w') \<longrightarrow>
      apply_factory g (FCallable f) c cb w = registerIfDisposable inst cb w' \<and>
      fst (apply_factory g (FCallable f) c cb w) = Normal inst) \<and>
   (inject g c f [VCtx c] w = (Thrown e, w') \<longrightarrow>
      apply_factory g (FCallable f) c cb w =
        and_then (call_plain g c f [VCtx c] w') (\<lambda>inst. registerIfDisposable inst cb)) \<and>
   (inject g c f [VCtx c] w = (Thrown e, w') \<longrightarrow> body (callable_of w' f) = Some b \<longrightarrow>
      apply_factory g (FCallable f) c cb w =
        and_then (run_code (b [VCtx c]) (g c) (log (Called f) w'))
          (\<lambda>inst. registerIfDisposable inst cb))"
proof (intro conjI impI)
  show "createServiceFactory base (VFun f) = FCallable f"
    by (simp add: createServiceFactory_def)
next
  assume a: "inject g c f [VCtx c] w = (Normal inst, w')"
  then have obj: "is_object inst" by (rule inject_object)
  obtain w'' where r: "registerIfDisposable inst cb w' = (Normal inst, w'')"
    using registerIfDisposable_object[OF obj, of cb w']
    by (cases "registerIfDisposable inst cb w'") simp
  show "apply_factory g (FCallable f) c cb w = registerIfDisposable inst cb w'"
    using a r by (simp add: apply_factory_def and_then_def try_catch_def)
  then show "fst (apply_factory g (FCallable f) c cb w) = Normal inst"
    using r by simp
next
  assume a: "inject g c f [VCtx c] w = (Thrown e, w')"
  then show "apply_factory g (FCallable f) c cb w =
      and_then (call_plain g c f [VCtx c] w') (\<lambda>inst. registerIfDisposable inst cb)"
    by (simp add: apply_factory_def and_then_def try_catch_def)
next
  assume a: "inject g c f [VCtx c] w = (Thrown e, w')" and b: "body (callable_of w' f) = Some b"
  then show "apply_factory g (FCallable f) c cb w =
      and_then (run_code (b [VCtx c]) (g c) (log (Called f) w'))
        (\<lambda>inst. registerIfDisposable inst cb)"
    by (simp add: apply_factory_def and_then_def try_catch_def call_plain_def)
qed

text \<open>
  A run: the constructor of the plain function throws an error of its own; the factory
  then calls the function, which returns a new disposable object, registered with the host.
\<close>

theorem callable_factory_falls_back_witness:
  "inject (get 0) Host (KUser 2) [VCtx Host] picky_world =
     (Thrown (UserError ''refused''), snd (inject (get 0) Host (KUser 2) [VCtx Host] picky_world)) \<and>
   fst (apply_factory (get 0) (FCallable (KUser 2)) Host Host picky_world) = Normal (VObj 1) \<and>
   trace (snd (apply_factory (get 0) (FCallable (KUser 2)) Host Host picky_world))
     = [Constructed (KUser 2), Called (KUser 2)] \<and>
   host_registry (snd (apply_factory (get 0) (FCallable (KUser 2)) Host Host picky_world)) = [VObj 1] \<and>
   fst (get (Suc 0) Host (KUser 2) picky_world) = Normal (VObj 1)"
proof -
  let ?w1 = "snd (inject (get 0) Host (KUser 2) [VCtx Host] picky_world)"
  have attempt: "inject (get 0) Host (KUser 2) [VCtx Host] picky_world =
      (Thrown (UserError ''refused''), ?w1)"
    by (simp add: demo_defs2 model_defs)
  have w1: "?w1 = picky_world\<lparr>objects := [\<lparr>async_release = Absent, sync_release = Absent, props = Map.empty\<rparr>],
      trace := [Constructed (KUser 2)]\<rparr>"
    by (simp add: demo_defs2 model_defs)
  have bd: "body (callable_of ?w1 (KUser 2)) = Some (\<lambda>args. New Absent Completes Return)"
    by (simp add: w1) (simp add: demo_defs2 model_defs)
  have eq: "apply_factory (get 0) (FCallable (KUser 2)) Host Host picky_world =
      and_then (run_code (New Absent Completes Return) (get 0 Host) (log (Called (KUser 2)) ?w1))
        (\<lambda>inst. registerIfDisposable inst Host)"
    using callable_factory_falls_back [of "KUser 2" "KUser 2" "get 0" Host picky_world _ _ Host
        "UserError ''refused''" "\<lambda>args. New Absent Completes Return"] attempt bd
    by blast
  have res: "fst (apply_factory (get 0) (FCallable (KUser 2)) Host Host picky_world) = Normal (VObj 1)"
    "trace (snd (apply_factory (get 0) (FCallable (KUser 2)) Host Host picky_world))
       = [Constructed (KUser 2), Called (KUser 2)]"
    "host_registry (snd (apply_factory (get 0) (FCallable (KUser 2)) Host Host picky_world)) = [VObj 1]"
    unfolding eq w1 by (simp_all add: demo_defs2 model_defs)
  have top: "fst (get (Suc 0) Host (KUser 2) picky_world) = Normal (VObj 1)"
    by (simp add: demo_defs2 model_defs)
  show ?thesis using attempt res top by (simp del: get.simps)
qed

section \<open>Teardown\<close>

text \<open>
  Claim C5. \<^verbatim>\<open>register\<close> appends, so the list of a registry is in registration order. Teardown
  takes the list, leaves the empty list in its place and walks the old list from its first
  item to its last. Whatever the items are and however the run ends, the registry is empty
  afterwards, and a second teardown releases nothing: it completes and the state, the trace
  included, is what it was. When the items are objects of the application whose release
  methods complete, the run completes and the trace grows by the release calls of the
  items, item after item in the order of the list, each item's asynchronous release before
  its synchronous one and both before any call on the next item. (A release that throws
  ends the run there; a context found in the list is torn down in its turn.)
\<close>

theorem teardown_in_order_once:
  "(ctx_exists w c \<longrightarrow> registry_of c (register c v w) = registry_of c w @ [v]) \<and>
   (teardown (Suc n) c w = (r, w') \<longrightarrow>
      registry_of c w' = [] \<and> teardown (Suc m) c w' = (Normal (), w')) \<and>
   ((\<forall>item \<in> set (registry_of c w). settles w item) \<longrightarrow>
      teardown (Suc n) c w =
        (Normal (),
         (set_registry c [] w)\<lparr>trace := trace w @ concat (map (release_events w) (registry_of c w))\<rparr>))"
proof (intro conjI impI)
  assume "ctx_exists w c"
  then show "registry_of c (register c v w) = registry_of c w @ [v]"
    by (rule register_appends)
next
  assume "teardown (Suc n) c w = (r, w')"
  then have "registry_asyncDispose (teardown n) c w = (r, w')" by simp
  then show e: "registry_of c w' = []"
    by (rule registry_asyncDispose_empties(1)[OF teardown_keeps_empty])
  show "teardown (Suc m) c w' = (Normal (), w')"
    using e by (rule teardown_drained)
next
  assume a: "\<forall>item \<in> set (registry_of c w). settles w item"
  then show "teardown (Suc n) c w =
      (Normal (),
       (set_registry c [] w)\<lparr>trace := trace w @ concat (map (release_events w) (registry_of c w))\<rparr>)"
    by (rule teardown_run_settled)
qed

text \<open>
  A run: three disposable instances registered in the order 0, 1, 2 by three factories are
  released in that order, and a second teardown does nothing.
\<close>

theorem teardown_in_order_once_witness:
  "registry_of Host three_resources_world = [VObj 0, VObj 1, VObj 2] \<and>
   fst (teardown (Suc 0) Host three_resources_world) = Normal () \<and>
   trace (snd (teardown (Suc 0) Host three_resources_world)) =
     trace three_resources_world @
     [AsyncReleased 0, SyncReleased 0, AsyncReleased 1, SyncReleased 1, AsyncReleased 2, SyncReleased 2] \<and>
   teardown (Suc 0) Host (snd (teardown (Suc 0) Host three_resources_world)) =
     (Normal (), snd (teardown (Suc 0) Host three_resources_world))"
proof -
  let ?w = three_resources_world
  let ?w' = "snd (teardown (Suc 0) Host ?w)"
  have ok: "\<forall>item \<in> set (registry_of Host ?w). settles ?w item"
    by (simp add: three_resources settles_def)
  have ev: "concat (map (release_events ?w) (registry_of Host ?w)) =
      [AsyncReleased 0, SyncReleased 0, AsyncReleased 1, SyncReleased 1, AsyncReleased 2, SyncReleased 2]"
    by (simp add: three_resources release_events_def)
  note inst = teardown_in_order_once [of ?w Host _ 0 "fst (teardown (Suc 0) Host ?w)" ?w' 0]
  have run: "teardown (Suc 0) Host ?w =
      (Normal (), (set_registry Host [] ?w)\<lparr>trace := trace ?w @
        [AsyncReleased 0, SyncReleased 0, AsyncReleased 1, SyncReleased 1, AsyncReleased 2, SyncReleased 2]\<rparr>)"
    using inst ok ev by (simp del: teardown.simps)
  have again: "teardown (Suc 0) Host ?w' = (Normal (), ?w')"
    using inst by (simp del: teardown.simps)
  show ?thesis using run again three_resources(1) by (simp del: teardown.simps)
qed

text \<open>
  Claim C10. A registered object that has both release methods, the asynchronous one completing,
  has both invoked by the loop body: first the asynchronous, then the synchronous one, and
  nothing in between (the two tests are independent statements, not alternatives). In a
  teardown whose other items are application objects with completing releases, the two calls
  stand side by side in the trace, after the calls for the items registered before and
  ahead of those for the items registered after.
\<close>

theorem both_releases_invoked:
  assumes "lookup (objects w) r = Some ob" and "async_release ob = Completes"
    and "sync_release ob \<noteq> Absent"
  shows
    "(\<exists>res. release_item d (VObj r) w =
        (res, w\<lparr>trace := trace w @ [AsyncReleased r, SyncReleased r]\<rparr>)) \<and>
     (registry_of c w = before @ VObj r # after \<longrightarrow>
      (\<forall>item \<in> set (before @ after). settles w item) \<longrightarrow> sync_release ob = Completes \<longrightarrow>
        fst (teardown (Suc n) c w) = Normal () \<and>
        trace (snd (teardown (Suc n) c w)) =
          trace w @ concat (map (release_events w) before) @
          [AsyncReleased r, SyncReleased r] @ concat (map (release_events w) after))"
proof (intro conjI impI)
  show "\<exists>res. release_item d (VObj r) w =
      (res, w\<lparr>trace := trace w @ [AsyncReleased r, SyncReleased r]\<rparr>)"
    using assms
    by (cases "sync_release ob")
       (simp_all add: release_item_def release_async_def release_sync_def invoke_release_def
          and_then_def log_def)
next
  assume reg: "registry_of c w = before @ VObj r # after"
    and rest: "\<forall>item \<in> set (before @ after). settles w item"
    and sync: "sync_release ob = Completes"
  have me: "settles w (VObj r)" "release_events w (VObj r) = [AsyncReleased r, SyncReleased r]"
    using assms(1,2) sync by (simp_all add: settles_def release_events_def)
  have all: "\<forall>item \<in> set (registry_of c w). settles w item"
    using rest me(1) by (auto simp: reg)
  show "fst (teardown (Suc n) c w) = Normal ()"
    using teardown_run_settled[OF all, of n] by (simp del: teardown.simps)
  show "trace (snd (teardown (Suc n) c w)) =
      trace w @ concat (map (release_events w) before) @
      [AsyncReleased r, SyncReleased r] @ concat (map (release_events w) after)"
    using teardown_run_settled[OF all, of n] by (simp del: teardown.simps add: reg me(2))
qed

text \<open>
  A run: the instance at address 1, registered between two others, has its asynchronous and
  then its synchronous release invoked.
\<close>

theorem both_releases_invoked_witness:
  "fst (teardown (Suc 0) Host three_resources_world) = Normal () \<and>
   trace (snd (teardown (Suc 0) Host three_resources_world)) =
     trace three_resources_world @
     [AsyncReleased 0, SyncReleased 0] @ [AsyncReleased 1, SyncReleased 1] @
     [AsyncReleased 2, SyncReleased 2]"
proof -
  let ?w = three_resources_world
  have rest: "\<forall>item \<in> set ([VObj 0] @ [VObj 2]). settles ?w item"
    by (simp add: three_resources settles_def)
  have ev: "release_events ?w (VObj 0) = [AsyncReleased 0, SyncReleased 0]"
    "release_events ?w (VObj 2) = [AsyncReleased 2, SyncReleased 2]"
    by (simp_all add: three_resources release_events_def)
  have reg: "registry_of Host ?w = [VObj 0] @ VObj 1 # [VObj 2]"
    by (simp add: three_resources)
  from both_releases_invoked [OF three_resources(3), of _ Host "[VObj 0]" "[VObj 2]" 0] reg rest ev
  show ?thesis by (simp del: teardown.simps)
qed

end
